theory Spec2Isabelle
  imports Main "HOL-Library.Word" "HOL-Library.Monad_Syntax" "HOL-Library.Multiset"
begin

unbundle bit_operations_syntax

section \<open>Common types\<close>

text \<open>
  Modelled from the spec: \<open>error.h\<close>, which defines the \<open>int32_t\<close> constants \<open>SUCCESS\<close> and
  \<open>FAILURE\<close>, is not among the sources. The spec describes a two-valued outcome (success
  or a generic failure) and the code only uses the two names, so the outcome is a
  two-valued datatype.
  Undefined behaviour of the C code (dereferencing a null or released pointer, copying
  outside a region, \<open>abs\<close> of a value whose negation is not representable) is the value
  \<open>None\<close> of an outer \<open>option\<close>.
\<close>

datatype status = SUCCESS | FAILURE

type_synonym u32 = "32 word"
type_synonym i32 = "32 word"
type_synonym byte = "8 word"

section \<open>Ring buffer (\<open>util/circular_buffer.c\<close>)\<close>

text \<open>
  \<open>struct circular_buffer\<close>. The backing region \<open>buff\<close> is the list of its bytes; the
  pointers \<open>read_ptr\<close> and \<open>write_ptr\<close> into the region are represented by their byte
  offset from \<open>buff\<close>. The field \<open>size\<close> is named \<open>size_cb\<close>.
\<close>

record circular_buffer =
  size_cb :: u32
  nb_elem :: u32
  elem_size :: u32
  buff :: "byte list"
  read_ptr :: nat
  write_ptr :: nat
  full :: bool

text \<open>
  \<open>calloc\<close> is a parameter: \<open>calloc_ok n sz\<close> tells whether the allocation of \<open>n\<close>
  objects of \<open>sz\<close> bytes succeeds. The size of the descriptor itself is a parameter too.
  A successful \<open>calloc nb_elements element_size\<close> yields that many zero bytes (the
  product is taken in \<open>size_t\<close>, which is wider than 32 bits on LP64 targets).
\<close>

definition circular_buffer_init ::
  "(nat \<Rightarrow> nat \<Rightarrow> bool) \<Rightarrow> nat \<Rightarrow> bool \<Rightarrow> u32 \<Rightarrow> u32 \<Rightarrow> status \<times> circular_buffer option" where
  "circular_buffer_init calloc_ok sizeof_desc desc_nonnull nb_elements element_size =
     (if \<not> desc_nonnull \<or> element_size = 0 \<or> nb_elements = 0 then (FAILURE, None)
      else let sz = nb_elements * element_size in
        if sz < nb_elements \<or> sz < element_size then (FAILURE, None)
        else if \<not> calloc_ok 1 sizeof_desc then (FAILURE, None)
        else if \<not> calloc_ok (unat nb_elements) (unat element_size) then (FAILURE, None)
        else (SUCCESS, Some \<lparr> size_cb = sz, nb_elem = nb_elements, elem_size = element_size,
                buff = replicate (unat nb_elements * unat element_size) 0,
                read_ptr = 0, write_ptr = 0, full = False \<rparr>))"

definition ptr_to_offset :: "circular_buffer \<Rightarrow> nat \<Rightarrow> u32" where
  "ptr_to_offset desc ptr = of_nat ptr"

definition elements_to_size :: "circular_buffer \<Rightarrow> u32 \<Rightarrow> u32" where
  "elements_to_size desc elems = elems * elem_size desc"

definition size_to_elements :: "circular_buffer \<Rightarrow> u32 \<Rightarrow> u32" where
  "size_to_elements desc sz = sz div elem_size desc"

definition get_unread_size :: "circular_buffer \<Rightarrow> u32" where
  "get_unread_size desc =
     (if full desc then size_cb desc
      else if write_ptr desc < read_ptr desc
        then (size_cb desc - ptr_to_offset desc (read_ptr desc)) + of_nat (write_ptr desc)
        else of_nat (write_ptr desc - read_ptr desc))"

definition circular_buffer_size :: "circular_buffer option \<Rightarrow> status \<times> u32 option" where
  "circular_buffer_size desc =
     (case desc of None \<Rightarrow> (FAILURE, None)
      | Some ldesc \<Rightarrow> (SUCCESS, Some (size_to_elements ldesc (get_unread_size ldesc))))"

text \<open>
  \<open>memcpy (dst + doff) (src + soff) n\<close> on two regions given as byte lists; copying
  beyond the end of either region is undefined behaviour.
\<close>

definition memcpy :: "byte list \<Rightarrow> nat \<Rightarrow> byte list \<Rightarrow> nat \<Rightarrow> nat \<Rightarrow> byte list option" where
  "memcpy dst doff src soff n =
     (if doff + n \<le> length dst \<and> soff + n \<le> length src
      then Some (take doff dst @ take n (drop soff src) @ drop (doff + n) dst)
      else None)"

text \<open>
  \<open>circular_buffer_write desc data nb_elements\<close>: \<open>data\<close> is the caller's region. The result
  is the returned status and the descriptor after the call.
\<close>

definition circular_buffer_write ::
  "circular_buffer option \<Rightarrow> byte list \<Rightarrow> u32 \<Rightarrow> (status \<times> circular_buffer option) option" where
  "circular_buffer_write desc data nb_elements =
     (case desc of None \<Rightarrow> Some (FAILURE, None)
      | Some ldesc \<Rightarrow>
        if full ldesc then Some (FAILURE, desc)
        else let to_write_size = elements_to_size ldesc nb_elements in
          if to_write_size > size_cb ldesc - get_unread_size ldesc then Some (FAILURE, desc)
          else let size_to_end = size_cb ldesc - ptr_to_offset ldesc (write_ptr ldesc) in
            do {
              l1 \<leftarrow> (if to_write_size > size_to_end then
                      do {
                        b1 \<leftarrow> memcpy (buff ldesc) (write_ptr ldesc) data 0 (unat size_to_end);
                        let to_write_size' = to_write_size - size_to_end;
                        b2 \<leftarrow> memcpy b1 0 data (unat size_to_end) (unat to_write_size');
                        Some (ldesc\<lparr>buff := b2, write_ptr := unat to_write_size'\<rparr>)
                      }
                    else
                      do {
                        b1 \<leftarrow> memcpy (buff ldesc) (write_ptr ldesc) data 0 (unat to_write_size);
                        Some (ldesc\<lparr>buff := b1,
                                    write_ptr := write_ptr ldesc + unat to_write_size\<rparr>)
                      });
              Some (SUCCESS,
                    Some (if write_ptr l1 = read_ptr l1 then l1\<lparr>full := True\<rparr> else l1))
            })"

text \<open>
  \<open>circular_buffer_read desc data nb_elements\<close>: \<open>data\<close> is the caller's destination
  region, returned as it is after the copies.
\<close>

definition circular_buffer_read ::
  "circular_buffer option \<Rightarrow> byte list \<Rightarrow> u32 \<Rightarrow>
     (status \<times> circular_buffer option \<times> byte list) option" where
  "circular_buffer_read desc data nb_elements =
     (case desc of None \<Rightarrow> Some (FAILURE, None, data)
      | Some ldesc \<Rightarrow>
        let to_read_size = elements_to_size ldesc nb_elements in
          if to_read_size > get_unread_size ldesc then Some (FAILURE, desc, data)
          else let size_to_end = size_cb ldesc - ptr_to_offset ldesc (read_ptr ldesc) in
            do {
              (l1, d1) \<leftarrow> (if to_read_size > size_to_end then
                      do {
                        d1 \<leftarrow> memcpy data 0 (buff ldesc) (read_ptr ldesc) (unat size_to_end);
                        let to_read_size' = to_read_size - size_to_end;
                        d2 \<leftarrow> memcpy d1 (unat size_to_end) (buff ldesc) 0 (unat to_read_size');
                        Some (ldesc\<lparr>read_ptr := unat to_read_size'\<rparr>, d2)
                      }
                    else
                      do {
                        d1 \<leftarrow> memcpy data 0 (buff ldesc) (read_ptr ldesc) (unat to_read_size);
                        Some (ldesc\<lparr>read_ptr := read_ptr ldesc + unat to_read_size\<rparr>, d1)
                      });
              Some (SUCCESS, Some (if full l1 then l1\<lparr>full := False\<rparr> else l1), d1)
            })"

section \<open>Doubly linked list (\<open>util/list.c\<close>)\<close>

subsection \<open>Data\<close>

text \<open>
  A \<open>void *\<close> payload is a 64-bit value (LP64 target); nodes live at addresses of type
  \<open>addr\<close>, and a pointer to a node is an \<open>addr option\<close> with \<open>None\<close> for \<open>NULL\<close>.
  The field \<open>next\<close> of \<open>struct list_elem\<close> is named \<open>next'\<close>.
\<close>

type_synonym addr = nat
type_synonym ptr = "64 word"
type_synonym f_cmp = "ptr \<Rightarrow> ptr \<Rightarrow> i32"

record list_elem =
  data :: ptr
  prev :: "addr option"
  next' :: "addr option"

text \<open>\<open>struct list_iterator\<close>; its \<open>list\<close> field is the one list of the state.\<close>

record list_iterator =
  elem :: "addr option"

datatype adapter_type = LIST_DEFAULT | LIST_QUEUE | LIST_STACK | LIST_PRIORITY_LIST

text \<open>
  The function pointers stored in \<open>struct list_adapter\<close>, by the name of their target;
  the field \<open>back\<close> is named \<open>back'\<close>.
\<close>

datatype f_add = LIST_ADD_FIND | LIST_ADD_LAST
datatype f_get = LIST_GET_FIRST | LIST_GET_LAST
datatype f_read = LIST_READ_FIRST | LIST_READ_LAST
datatype f_edit = LIST_EDIT_FIRST | LIST_EDIT_LAST

record list_adapter =
  push :: f_add
  pop :: f_get
  top_next :: f_read
  back' :: f_read
  swap :: f_edit

text \<open>\<open>struct list_desc\<close>; the field \<open>last\<close> is named \<open>last'\<close>.\<close>

record list_desc =
  first :: "addr option"
  last' :: "addr option"
  nb_elements :: u32
  comparator :: f_cmp
  nb_iterators :: u32
  l_it :: list_iterator
  adapter :: list_adapter

text \<open>
  The memory the list functions work on: the allocated nodes, the list descriptor the
  handle refers to (\<open>None\<close> for a null handle), and the allocator, which hands out the
  address \<open>brk\<close> and succeeds \<open>quota\<close> more times.
\<close>

record lstate =
  heap :: "addr \<Rightarrow> list_elem option"
  list :: "list_desc option"
  brk :: addr
  quota :: nat

subsection \<open>Static helpers\<close>

definition default_comparator :: f_cmp where
  "default_comparator data1 data2 = ucast (data1 - data2)"

definition create_element ::
  "ptr \<Rightarrow> addr option \<Rightarrow> addr option \<Rightarrow> lstate \<Rightarrow> addr option \<times> lstate" where
  "create_element d p n s =
     (if quota s = 0 then (None, s)
      else (Some (brk s),
            s\<lparr>heap := (heap s)(brk s \<mapsto> \<lparr>data = d, prev = p, next' = n\<rparr>),
              brk := Suc (brk s), quota := quota s - 1\<rparr>))"

definition update_links ::
  "addr option \<Rightarrow> addr option \<Rightarrow> addr option \<Rightarrow> (addr \<Rightarrow> list_elem option)
     \<Rightarrow> (addr \<Rightarrow> list_elem option) option" where
  "update_links p e n h =
     do {
       h1 \<leftarrow> (case p of None \<Rightarrow> Some h
              | Some pa \<Rightarrow> do { x \<leftarrow> h pa;
                               Some (h(pa \<mapsto> x\<lparr>next' := (if e \<noteq> None then e else n)\<rparr>)) });
       h2 \<leftarrow> (case e of None \<Rightarrow> Some h1
              | Some ea \<Rightarrow> do { x \<leftarrow> h1 ea; Some (h1(ea \<mapsto> x\<lparr>prev := p, next' := n\<rparr>)) });
       (case n of None \<Rightarrow> Some h2
        | Some na \<Rightarrow> do { x \<leftarrow> h2 na;
                         Some (h2(na \<mapsto> x\<lparr>prev := (if e \<noteq> None then e else p)\<rparr>)) })
     }"

definition update_desc :: "list_desc \<Rightarrow> addr option \<Rightarrow> addr option \<Rightarrow> list_desc" where
  "update_desc l new_first new_last =
     (if new_first = first l then
        (let l1 = l\<lparr>last' := new_last\<rparr>
         in if new_first = None \<or> new_last = None then l1\<lparr>first := new_last\<rparr> else l1)
      else
        (let l1 = l\<lparr>first := new_first\<rparr>
         in if new_last = None \<or> new_first = None then l1\<lparr>last' := new_first\<rparr> else l1))"

definition set_adapter :: "adapter_type \<Rightarrow> list_adapter" where
  "set_adapter type =
     (case type of
        LIST_PRIORITY_LIST \<Rightarrow>
          \<lparr>push = LIST_ADD_FIND, pop = LIST_GET_FIRST, top_next = LIST_READ_FIRST,
           back' = LIST_READ_LAST, swap = LIST_EDIT_FIRST\<rparr>
      | LIST_QUEUE \<Rightarrow>
          \<lparr>push = LIST_ADD_LAST, pop = LIST_GET_FIRST, top_next = LIST_READ_FIRST,
           back' = LIST_READ_LAST, swap = LIST_EDIT_FIRST\<rparr>
      | _ \<Rightarrow>
          \<lparr>push = LIST_ADD_LAST, pop = LIST_GET_LAST, top_next = LIST_READ_LAST,
           back' = LIST_READ_FIRST, swap = LIST_EDIT_LAST\<rparr>)"

subsection \<open>Construction and size\<close>

definition list_init :: "bool \<Rightarrow> f_cmp option \<Rightarrow> adapter_type \<Rightarrow> lstate \<Rightarrow> status \<times> lstate" where
  "list_init list_desc_nonnull cmp type s =
     (if \<not> list_desc_nonnull then (FAILURE, s)
      else if quota s = 0 then (FAILURE, s)
      else (SUCCESS,
            s\<lparr>quota := quota s - 1,
              list := Some \<lparr>first = None, last' = None, nb_elements = 0,
                            comparator = (case cmp of Some f \<Rightarrow> f | None \<Rightarrow> default_comparator),
                            nb_iterators = 0, l_it = \<lparr>elem = None\<rparr>,
                            adapter = set_adapter type\<rparr>\<rparr>))"

definition list_get_size :: "lstate \<Rightarrow> bool \<Rightarrow> status \<times> u32 option" where
  "list_get_size s out_size_nonnull =
     (case list s of None \<Rightarrow> (FAILURE, None)
      | Some l \<Rightarrow> if \<not> out_size_nonnull then (FAILURE, None)
                  else (SUCCESS, Some (nb_elements l)))"

subsection \<open>Operations on the ends\<close>

definition list_add_first :: "lstate \<Rightarrow> ptr \<Rightarrow> (status \<times> lstate) option" where
  "list_add_first s d =
     (case list s of None \<Rightarrow> Some (FAILURE, s)
      | Some l \<Rightarrow>
        let p = None; n = first l; (e, s1) = create_element d p n s in
        if e = None then Some (FAILURE, s1)
        else do {
          h \<leftarrow> update_links p e n (heap s1);
          let l1 = update_desc l e (last' l);
          Some (SUCCESS, s1\<lparr>heap := h, list := Some (l1\<lparr>nb_elements := nb_elements l1 + 1\<rparr>)\<rparr>)
        })"

definition list_add_last :: "lstate \<Rightarrow> ptr \<Rightarrow> (status \<times> lstate) option" where
  "list_add_last s d =
     (case list s of None \<Rightarrow> Some (FAILURE, s)
      | Some l \<Rightarrow>
        let p = last' l; n = None; (e, s1) = create_element d p n s in
        if e = None then Some (FAILURE, s1)
        else do {
          h \<leftarrow> update_links p e n (heap s1);
          let l1 = update_desc l (first l) e;
          Some (SUCCESS, s1\<lparr>heap := h, list := Some (l1\<lparr>nb_elements := nb_elements l1 + 1\<rparr>)\<rparr>)
        })"

definition list_edit_first :: "lstate \<Rightarrow> ptr \<Rightarrow> (status \<times> lstate) option" where
  "list_edit_first s new_data =
     (case list s of None \<Rightarrow> Some (FAILURE, s)
      | Some l \<Rightarrow>
        (case first l of None \<Rightarrow> None
         | Some a \<Rightarrow> do { x \<leftarrow> heap s a;
                          Some (SUCCESS, s\<lparr>heap := (heap s)(a \<mapsto> x\<lparr>data := new_data\<rparr>)\<rparr>) }))"

definition list_edit_last :: "lstate \<Rightarrow> ptr \<Rightarrow> (status \<times> lstate) option" where
  "list_edit_last s new_data =
     (case list s of None \<Rightarrow> Some (FAILURE, s)
      | Some l \<Rightarrow>
        (case last' l of None \<Rightarrow> None
         | Some a \<Rightarrow> do { x \<leftarrow> heap s a;
                          Some (SUCCESS, s\<lparr>heap := (heap s)(a \<mapsto> x\<lparr>data := new_data\<rparr>)\<rparr>) }))"

text \<open>
  The read and get functions return the payload (\<open>0\<close> for \<open>NULL\<close>) and the status they
  store through \<open>result\<close> when that pointer is not null.
\<close>

definition list_read_first :: "lstate \<Rightarrow> (ptr \<times> status) option" where
  "list_read_first s =
     (case list s of None \<Rightarrow> Some (0, FAILURE)
      | Some l \<Rightarrow>
        (case first l of None \<Rightarrow> Some (0, FAILURE)
         | Some a \<Rightarrow> do { x \<leftarrow> heap s a; Some (data x, SUCCESS) }))"

definition list_read_last :: "lstate \<Rightarrow> (ptr \<times> status) option" where
  "list_read_last s =
     (case list s of None \<Rightarrow> Some (0, FAILURE)
      | Some l \<Rightarrow>
        (case last' l of None \<Rightarrow> Some (0, FAILURE)
         | Some a \<Rightarrow> do { x \<leftarrow> heap s a; Some (data x, SUCCESS) }))"

definition list_get_first :: "lstate \<Rightarrow> (ptr \<times> status \<times> lstate) option" where
  "list_get_first s =
     (case list s of None \<Rightarrow> Some (0, FAILURE, s)
      | Some l \<Rightarrow>
        if nb_elements l = 0 then Some (0, FAILURE, s)
        else do {
          a \<leftarrow> first l;
          x \<leftarrow> heap s a;
          h \<leftarrow> update_links (prev x) None (next' x) (heap s);
          let l1 = update_desc l (next' x) (last' l);
          y \<leftarrow> h a;
          Some (data y, SUCCESS,
                s\<lparr>heap := h(a := None), list := Some (l1\<lparr>nb_elements := nb_elements l1 - 1\<rparr>)\<rparr>)
        })"

definition list_get_last :: "lstate \<Rightarrow> (ptr \<times> status \<times> lstate) option" where
  "list_get_last s =
     (case list s of None \<Rightarrow> Some (0, FAILURE, s)
      | Some l \<Rightarrow>
        if nb_elements l = 0 then Some (0, FAILURE, s)
        else do {
          a \<leftarrow> last' l;
          x \<leftarrow> heap s a;
          h \<leftarrow> update_links (prev x) None (next' x) (heap s);
          let l1 = update_desc l (first l) (prev x);
          y \<leftarrow> h a;
          Some (data y, SUCCESS,
                s\<lparr>heap := h(a := None), list := Some (l1\<lparr>nb_elements := nb_elements l1 - 1\<rparr>)\<rparr>)
        })"

subsection \<open>Iterators\<close>

text \<open>
  An iterator handle is a \<open>list_iterator option\<close> (\<open>None\<close> for a null handle). A function
  that assigns \<open>it->elem\<close> returns the iterator after the call.
\<close>

definition iterator_init :: "lstate \<Rightarrow> bool \<Rightarrow> status \<times> list_iterator option \<times> lstate" where
  "iterator_init s start =
     (case list s of None \<Rightarrow> (FAILURE, None, s)
      | Some l \<Rightarrow>
        if quota s = 0 then (FAILURE, None, s)
        else (SUCCESS, Some \<lparr>elem = (if start then first l else last' l)\<rparr>,
              s\<lparr>quota := quota s - 1,
                list := Some (l\<lparr>nb_iterators := nb_iterators l + 1\<rparr>)\<rparr>))"

definition iterator_remove :: "list_iterator option \<Rightarrow> lstate \<Rightarrow> (status \<times> lstate) option" where
  "iterator_remove it s =
     (case it of None \<Rightarrow> Some (FAILURE, s)
      | Some i \<Rightarrow> do { l \<leftarrow> list s;
                       Some (SUCCESS, s\<lparr>list := Some (l\<lparr>nb_iterators := nb_iterators l - 1\<rparr>)\<rparr>) })"

text \<open>
  \<open>abs\<close> of \<open>stdlib.h\<close> on \<open>int32_t\<close>: the C standard leaves the result undefined when it
  is not representable, that is at \<open>INT32_MIN\<close>.
\<close>

definition abs_i32 :: "i32 \<Rightarrow> i32 option" where
  "abs_i32 x = (if x = 0x80000000 then None else Some (if x <s 0 then - x else x))"

text \<open>The loop of \<open>iterator_move\<close>; it ends because \<open>idx\<close> decreases while positive.\<close>

function move_loop ::
  "(addr \<Rightarrow> list_elem option) \<Rightarrow> i32 \<Rightarrow> i32 \<Rightarrow> addr option \<Rightarrow> addr option option" where
  "move_loop h dir idx el =
     (if 0 <s idx \<and> el \<noteq> None then
        (case h (the el) of None \<Rightarrow> None
         | Some x \<Rightarrow> move_loop h dir (idx - 1) (if 0 <s dir then next' x else prev x))
      else Some el)"
  by pat_completeness auto

lemma sint_pred: "0 <s (idx :: i32) \<Longrightarrow> sint (idx - 1) = sint idx - 1"
proof -
  assume "0 <s idx"
  then have pos: "0 < sint idx" by (simp add: word_sless_alt)
  have up: "sint idx < 2 ^ 31" using sint_lt [of idx] by simp
  have "sint (idx - 1) = signed_take_bit 31 (sint idx - sint (1 :: i32))"
    using sint_word_diff [of idx 1] by simp
  also have "\<dots> = signed_take_bit 31 (sint idx - 1)" by simp
  also have "\<dots> = sint idx - 1"
    using pos up by (simp add: signed_take_bit_int_eq_self)
  finally show ?thesis .
qed

termination move_loop
  by (relation "measure (\<lambda>(h, dir, idx, el). nat (sint idx))")
     (auto simp: sint_pred word_sless_alt)

definition iterator_move ::
  "list_iterator option \<Rightarrow> i32 \<Rightarrow> lstate \<Rightarrow> (status \<times> list_iterator option) option" where
  "iterator_move it idx s =
     (let dir = (if idx <s 0 then - 1 else 1 :: i32) in
      case it of None \<Rightarrow> Some (FAILURE, None)
      | Some i \<Rightarrow> do {
          idx1 \<leftarrow> abs_i32 idx;
          el \<leftarrow> move_loop (heap s) dir idx1 (elem i);
          if el = None then Some (FAILURE, it)
          else Some (SUCCESS, Some (i\<lparr>elem := el\<rparr>))
        })"

text \<open>
  The loop of \<open>iterator_find\<close>. It follows \<open>next\<close> pointers until a match or \<open>NULL\<close>, so
  on a cyclic chain it does not return: the value is \<open>None\<close> then, as for a fault.
\<close>

partial_function (option) find_loop ::
  "f_cmp \<Rightarrow> (addr \<Rightarrow> list_elem option) \<Rightarrow> ptr \<Rightarrow> addr option \<Rightarrow> addr option option" where
  "find_loop cmp h cmp_data el =
     (if el = None then Some None
      else do {
        x \<leftarrow> h (the el);
        if cmp (data x) cmp_data = 0 then Some el
        else find_loop cmp h cmp_data (next' x)
      })"

declare find_loop.simps [code]

definition iterator_find ::
  "list_iterator option \<Rightarrow> ptr \<Rightarrow> lstate \<Rightarrow> (status \<times> list_iterator option) option" where
  "iterator_find it cmp_data s =
     (case it of None \<Rightarrow> Some (FAILURE, None)
      | Some i \<Rightarrow> do {
          l \<leftarrow> list s;
          r \<leftarrow> find_loop (comparator l) (heap s) cmp_data (first l);
          (case r of None \<Rightarrow> Some (FAILURE, it)
           | Some a \<Rightarrow> Some (SUCCESS, Some (i\<lparr>elem := Some a\<rparr>)))
        })"

definition iterator_edit :: "list_iterator option \<Rightarrow> ptr \<Rightarrow> lstate \<Rightarrow> (status \<times> lstate) option" where
  "iterator_edit it new_data s =
     (case it of None \<Rightarrow> Some (FAILURE, s)
      | Some i \<Rightarrow> do {
          a \<leftarrow> elem i;
          x \<leftarrow> heap s a;
          Some (SUCCESS, s\<lparr>heap := (heap s)(a \<mapsto> x\<lparr>data := new_data\<rparr>)\<rparr>)
        })"

definition iterator_get ::
  "list_iterator option \<Rightarrow> lstate \<Rightarrow> (ptr \<times> status \<times> list_iterator option \<times> lstate) option" where
  "iterator_get it s =
     (case it of None \<Rightarrow> Some (0, FAILURE, it, s)
      | Some i \<Rightarrow>
        (case elem i of None \<Rightarrow> Some (0, FAILURE, it, s)
         | Some a \<Rightarrow> do {
             l \<leftarrow> list s;
             x \<leftarrow> heap s a;
             h \<leftarrow> update_links (prev x) None (next' x) (heap s);
             y \<leftarrow> h a;
             let l1 = (if Some a = first l then update_desc l (next' y) (last' l)
                       else if Some a = last' l then update_desc l (first l) (prev y)
                       else l);
             let l2 = l1\<lparr>nb_elements := nb_elements l1 - 1\<rparr>;
             let n = (if Some a = last' l2 then prev y else next' y);
             Some (data y, SUCCESS, Some (i\<lparr>elem := n\<rparr>),
                   s\<lparr>heap := h(a := None), list := Some l2\<rparr>)
           }))"

definition iterator_read :: "list_iterator option \<Rightarrow> lstate \<Rightarrow> (ptr \<times> status) option" where
  "iterator_read it s =
     (case it of None \<Rightarrow> Some (0, FAILURE)
      | Some i \<Rightarrow>
        (case elem i of None \<Rightarrow> Some (0, FAILURE)
         | Some a \<Rightarrow> do { x \<leftarrow> heap s a; Some (data x, SUCCESS) }))"

definition iterator_insert ::
  "list_iterator option \<Rightarrow> ptr \<Rightarrow> bool \<Rightarrow> lstate \<Rightarrow> (status \<times> lstate) option" where
  "iterator_insert it d after s =
     (case it of None \<Rightarrow> Some (FAILURE, s)
      | Some i \<Rightarrow> do {
          l \<leftarrow> list s;
          if after \<and> elem i = last' l then list_add_last s d
          else if \<not> after \<and> elem i = first l then list_add_first s d
          else do {
            a \<leftarrow> elem i;
            x \<leftarrow> heap s a;
            let (e, s1) = (if after then create_element d (elem i) (next' x) s
                           else create_element d (prev x) (elem i) s);
            (case e of None \<Rightarrow> Some (FAILURE, s1)
             | Some ea \<Rightarrow> do {
                 y \<leftarrow> heap s1 ea;
                 h \<leftarrow> update_links (prev y) e (next' y) (heap s1);
                 l1 \<leftarrow> list s1;
                 Some (SUCCESS,
                       s1\<lparr>heap := h, list := Some (l1\<lparr>nb_elements := nb_elements l1 + 1\<rparr>)\<rparr>)
               })
          }
        })"

subsection \<open>Operations through the internal iterator \<open>l_it\<close>\<close>

text \<open>\<open>list->l_it.elem = e\<close>, and the handle \<open>&(list->l_it)\<close>.\<close>

definition set_l_it :: "addr option \<Rightarrow> lstate \<Rightarrow> lstate" where
  "set_l_it e s =
     (case list s of None \<Rightarrow> s
      | Some l \<Rightarrow> s\<lparr>list := Some (l\<lparr>l_it := (l_it l)\<lparr>elem := e\<rparr>\<rparr>)\<rparr>)"

definition get_l_it :: "lstate \<Rightarrow> list_iterator option" where
  "get_l_it s = map_option l_it (list s)"

definition put_l_it :: "list_iterator option \<Rightarrow> lstate \<Rightarrow> lstate" where
  "put_l_it it s = (case it of None \<Rightarrow> s | Some i \<Rightarrow> set_l_it (elem i) s)"

definition list_add_idx :: "lstate \<Rightarrow> ptr \<Rightarrow> u32 \<Rightarrow> (status \<times> lstate) option" where
  "list_add_idx s d idx =
     (case list s of None \<Rightarrow> Some (FAILURE, s)
      | Some l \<Rightarrow>
        if nb_elements l = 0 \<or> idx = 0 then list_add_first s d
        else if nb_elements l = idx then list_add_last s d
        else do {
          let s0 = set_l_it (first l) s;
          (st, it) \<leftarrow> iterator_move (get_l_it s0) idx s0;
          if st \<noteq> SUCCESS then Some (FAILURE, s0)
          else iterator_insert it d False (put_l_it it s0)
        })"

text \<open>The loop of \<open>list_add_find\<close>: the first element that \<open>d\<close> compares less than.\<close>

partial_function (option) add_find_loop ::
  "f_cmp \<Rightarrow> (addr \<Rightarrow> list_elem option) \<Rightarrow> ptr \<Rightarrow> addr option \<Rightarrow> addr option option" where
  "add_find_loop cmp h d el =
     (if el = None then Some None
      else do {
        x \<leftarrow> h (the el);
        if cmp d (data x) <s 0 then Some el
        else add_find_loop cmp h d (next' x)
      })"

declare add_find_loop.simps [code]

definition list_add_find :: "lstate \<Rightarrow> ptr \<Rightarrow> (status \<times> lstate) option" where
  "list_add_find s d =
     (case list s of None \<Rightarrow> Some (FAILURE, s)
      | Some l \<Rightarrow> do {
          el \<leftarrow> add_find_loop (comparator l) (heap s) d (first l);
          if el = None then
            (let s0 = set_l_it (last' l) s in iterator_insert (get_l_it s0) d True s0)
          else
            (let s0 = set_l_it el s in iterator_insert (get_l_it s0) d False s0)
        })"

definition list_edit_idx :: "lstate \<Rightarrow> ptr \<Rightarrow> u32 \<Rightarrow> (status \<times> lstate) option" where
  "list_edit_idx s new_data idx =
     (case list s of None \<Rightarrow> Some (FAILURE, s)
      | Some l \<Rightarrow> do {
          let s0 = set_l_it (first l) s;
          (st, it) \<leftarrow> iterator_move (get_l_it s0) idx s0;
          if st \<noteq> SUCCESS then Some (FAILURE, s0)
          else iterator_edit it new_data (put_l_it it s0)
        })"

definition list_edit_find :: "lstate \<Rightarrow> ptr \<Rightarrow> ptr \<Rightarrow> (status \<times> lstate) option" where
  "list_edit_find s new_data cmp_data =
     (case list s of None \<Rightarrow> Some (FAILURE, s)
      | Some l \<Rightarrow> do {
          let s0 = set_l_it (first l) s;
          (st, it) \<leftarrow> iterator_find (get_l_it s0) cmp_data s0;
          if st \<noteq> SUCCESS then Some (FAILURE, s0)
          else iterator_edit it new_data (put_l_it it s0)
        })"

definition list_read_idx :: "lstate \<Rightarrow> u32 \<Rightarrow> (ptr \<times> status \<times> lstate) option" where
  "list_read_idx s idx =
     (case list s of None \<Rightarrow> Some (0, FAILURE, s)
      | Some l \<Rightarrow>
        if idx \<ge> nb_elements l then Some (0, FAILURE, s)
        else do {
          let s0 = set_l_it (first l) s;
          (st, it) \<leftarrow> iterator_move (get_l_it s0) idx s0;
          if st \<noteq> SUCCESS then Some (0, FAILURE, s0)
          else do { (d, r) \<leftarrow> iterator_read it (put_l_it it s0); Some (d, r, put_l_it it s0) }
        })"

definition list_read_find :: "lstate \<Rightarrow> ptr \<Rightarrow> (ptr \<times> status \<times> lstate) option" where
  "list_read_find s cmp_data =
     (case list s of None \<Rightarrow> Some (0, FAILURE, s)
      | Some l \<Rightarrow> do {
          let s0 = set_l_it (first l) s;
          (st, it) \<leftarrow> iterator_find (get_l_it s0) cmp_data s0;
          if st \<noteq> SUCCESS then Some (0, FAILURE, s0)
          else do { (d, r) \<leftarrow> iterator_read it (put_l_it it s0); Some (d, r, put_l_it it s0) }
        })"

definition list_get_idx :: "lstate \<Rightarrow> u32 \<Rightarrow> (ptr \<times> status \<times> lstate) option" where
  "list_get_idx s idx =
     (case list s of None \<Rightarrow> Some (0, FAILURE, s)
      | Some l \<Rightarrow> do {
          let s0 = set_l_it (first l) s;
          (st, it) \<leftarrow> iterator_move (get_l_it s0) idx s0;
          if st \<noteq> SUCCESS then Some (0, FAILURE, s0)
          else do {
            (d, r, it1, s1) \<leftarrow> iterator_get it (put_l_it it s0);
            Some (d, r, put_l_it it1 s1)
          }
        })"

definition list_get_find :: "lstate \<Rightarrow> ptr \<Rightarrow> (ptr \<times> status \<times> lstate) option" where
  "list_get_find s cmp_data =
     (case list s of None \<Rightarrow> Some (0, FAILURE, s)
      | Some l \<Rightarrow> do {
          let s0 = set_l_it (first l) s;
          (st, it) \<leftarrow> iterator_find (get_l_it s0) cmp_data s0;
          if st \<noteq> SUCCESS then Some (0, FAILURE, s0)
          else do {
            (d, r, it1, s1) \<leftarrow> iterator_get it (put_l_it it s0);
            Some (d, r, put_l_it it1 s1)
          }
        })"

subsection \<open>Destruction\<close>

text \<open>
  The loop of \<open>list_remove\<close>: \<open>list_get_first\<close> is called until it returns a null payload.
\<close>

partial_function (option) remove_loop :: "lstate \<Rightarrow> lstate option" where
  "remove_loop s =
     do {
       (d, r, s1) \<leftarrow> list_get_first s;
       if d \<noteq> 0 then remove_loop s1 else Some s1
     }"

declare remove_loop.simps [code]

definition list_remove :: "lstate \<Rightarrow> (status \<times> lstate) option" where
  "list_remove s =
     (case list s of None \<Rightarrow> Some (FAILURE, s)
      | Some l \<Rightarrow>
        if nb_iterators l \<noteq> 0 then Some (FAILURE, s)
        else do { s1 \<leftarrow> remove_loop s; Some (SUCCESS, s1\<lparr>list := None\<rparr>) })"

subsection \<open>Calls through the adapter\<close>



definition call_f_read :: "f_read \<Rightarrow> lstate \<Rightarrow> (ptr \<times> status) option" where
  "call_f_read f s = (case f of LIST_READ_FIRST \<Rightarrow> list_read_first s
                      | LIST_READ_LAST \<Rightarrow> list_read_last s)"

definition call_f_edit :: "f_edit \<Rightarrow> lstate \<Rightarrow> ptr \<Rightarrow> (status \<times> lstate) option" where
  "call_f_edit f s d = (case f of LIST_EDIT_FIRST \<Rightarrow> list_edit_first s d
                        | LIST_EDIT_LAST \<Rightarrow> list_edit_last s d)"



section \<open>Example states\<close>

text \<open>The buffer \<open>circular_buffer_init\<close> builds for four elements of one byte.\<close>

definition cb_4x1 :: circular_buffer where
  "cb_4x1 = \<lparr>size_cb = 4, nb_elem = 4, elem_size = 1, buff = [0, 0, 0, 0],
             read_ptr = 0, write_ptr = 0, full = False\<rparr>"

text \<open>The buffer \<open>circular_buffer_init\<close> builds for four elements of two bytes.\<close>

definition cb_4x2 :: circular_buffer where
  "cb_4x2 = \<lparr>size_cb = 8, nb_elem = 4, elem_size = 2, buff = [0, 0, 0, 0, 0, 0, 0, 0],
             read_ptr = 0, write_ptr = 0, full = False\<rparr>"

text \<open>An empty buffer of four one-byte elements whose cursors both stand at offset 3.\<close>

definition cb_at3 :: circular_buffer where
  "cb_at3 = \<lparr>size_cb = 4, nb_elem = 4, elem_size = 1, buff = [9, 9, 9, 9],
             read_ptr = 3, write_ptr = 3, full = False\<rparr>"

text \<open>
  Memory before any list exists, the descriptor \<open>list_init\<close> builds with a null
  comparator, and the state after \<open>list_init\<close> with \<open>LIST_DEFAULT\<close>.
\<close>

definition mem0 :: lstate where
  "mem0 = \<lparr>heap = (\<lambda>_. None), list = None, brk = 0, quota = 8\<rparr>"

definition desc0 :: "adapter_type \<Rightarrow> list_desc" where
  "desc0 ty = \<lparr>first = None, last' = None, nb_elements = 0, comparator = default_comparator,
              nb_iterators = 0, l_it = \<lparr>elem = None\<rparr>, adapter = set_adapter ty\<rparr>"

definition ls_empty :: lstate where
  "ls_empty = \<lparr>heap = (\<lambda>_. None), list = Some (desc0 LIST_DEFAULT), brk = 0, quota = 7\<rparr>"

text \<open>The list holding the payloads 10 and 20, in nodes 0 and 1.\<close>

definition ls_ab :: lstate where
  "ls_ab = \<lparr>heap = (\<lambda>_. None)(0 \<mapsto> \<lparr>data = 10, prev = None, next' = Some 1\<rparr>,
                              1 \<mapsto> \<lparr>data = 20, prev = Some 0, next' = None\<rparr>),
            list = Some ((desc0 LIST_DEFAULT)
                          \<lparr>first := Some 0, last' := Some 1, nb_elements := 2\<rparr>),
            brk = 2, quota = 5\<rparr>"

text \<open>\<open>ls_ab\<close> after \<open>iterator_init\<close>: one live iterator.\<close>

definition ls_ab_it :: lstate where
  "ls_ab_it = ls_ab\<lparr>quota := 4,
                    list := Some ((desc0 LIST_DEFAULT)
                                   \<lparr>first := Some 0, last' := Some 1, nb_elements := 2,
                                     nb_iterators := 1\<rparr>)\<rparr>"

text \<open>The list holding the payloads 1, 0 (a null payload) and 2, in nodes 0, 1 and 2.\<close>

definition ls_nul :: lstate where
  "ls_nul = \<lparr>heap = (\<lambda>_. None)(0 \<mapsto> \<lparr>data = 1, prev = None, next' = Some 1\<rparr>,
                               1 \<mapsto> \<lparr>data = 0, prev = Some 0, next' = Some 2\<rparr>,
                               2 \<mapsto> \<lparr>data = 2, prev = Some 1, next' = None\<rparr>),
             list = Some ((desc0 LIST_DEFAULT)
                           \<lparr>first := Some 0, last' := Some 2, nb_elements := 3\<rparr>),
             brk = 3, quota = 4\<rparr>"

named_theorems list_defs \<open>unfolding the list functions on concrete states\<close>

declare list_init_def [list_defs] list_add_last_def [list_defs] list_add_first_def [list_defs]
  create_element_def [list_defs] update_links_def [list_defs] update_desc_def [list_defs]
  list_get_first_def [list_defs] list_get_last_def [list_defs]
  list_edit_first_def [list_defs] list_edit_last_def [list_defs]
  list_read_first_def [list_defs] list_read_last_def [list_defs]
  iterator_init_def [list_defs] iterator_get_def [list_defs] iterator_edit_def [list_defs]
  iterator_read_def [list_defs] iterator_insert_def [list_defs]
  iterator_move_def [list_defs] iterator_find_def [list_defs]
  abs_i32_def [list_defs] list_remove_def [list_defs]
  set_l_it_def [list_defs] get_l_it_def [list_defs] put_l_it_def [list_defs]
  mem0_def [list_defs] desc0_def [list_defs] ls_empty_def [list_defs] ls_ab_def [list_defs]
  ls_ab_it_def [list_defs] ls_nul_def [list_defs]

text \<open>The list holding the single payload \<open>0x100000000\<close>, in node 0.\<close>

definition ls_hi :: lstate where
  "ls_hi = \<lparr>heap = (\<lambda>_. None)(0 \<mapsto> \<lparr>data = 0x100000000, prev = None, next' = None\<rparr>),
            list = Some ((desc0 LIST_DEFAULT)
                          \<lparr>first := Some 0, last' := Some 0, nb_elements := 1\<rparr>),
            brk = 1, quota = 6\<rparr>"

declare ls_hi_def [list_defs]

section \<open>Notions used to state the results\<close>

text \<open>
  \<open>walk h fwd k el\<close>: the pointer reached from \<open>el\<close> by \<open>k\<close> steps along \<open>next\<close> (\<open>fwd\<close>) or
  \<open>prev\<close>, staying null once null; \<open>None\<close> when a step reads a node that is not allocated.
\<close>

fun walk ::
  "(addr \<Rightarrow> list_elem option) \<Rightarrow> bool \<Rightarrow> nat \<Rightarrow> addr option \<Rightarrow> addr option option" where
  "walk h fwd 0 el = Some el"
| "walk h fwd (Suc k) el =
     (case el of None \<Rightarrow> Some None
      | Some a \<Rightarrow> (case h a of None \<Rightarrow> None
                   | Some x \<Rightarrow> walk h fwd k (if fwd then next' x else prev x)))"

text \<open>
  \<open>seg h p c ns q n\<close>: from the pointer \<open>c\<close> the nodes of \<open>ns\<close> (address and payload, in
  order) are linked in both directions; \<open>p\<close> is the \<open>prev\<close> of the first node, \<open>q\<close> points
  to the last node (or is \<open>p\<close> when \<open>ns\<close> is empty) and \<open>n\<close> is the \<open>next\<close> of the last node.
  \<open>dlist_inv s ns\<close> is the invariant of \<open>struct list_desc\<close>: the chain from \<open>first\<close> to \<open>last\<close>
  consists of the nodes \<open>ns\<close>, all distinct and allocated, and \<open>nb_elements\<close> counts them.
  \<open>cfg\<close> is the part of the descriptor that no list operation changes.
\<close>

fun seg ::
  "(addr \<Rightarrow> list_elem option) \<Rightarrow> addr option \<Rightarrow> addr option \<Rightarrow> (addr \<times> ptr) list
     \<Rightarrow> addr option \<Rightarrow> addr option \<Rightarrow> bool" where
  "seg h p c [] q n = (c = n \<and> q = p)"
| "seg h p c ((a, d) # ns) q n =
     (c = Some a \<and>
      (case h a of None \<Rightarrow> False
       | Some x \<Rightarrow> prev x = p \<and> data x = d \<and> seg h (Some a) (next' x) ns q n))"

definition dlist_inv :: "lstate \<Rightarrow> (addr \<times> ptr) list \<Rightarrow> bool" where
  "dlist_inv s ns =
     (case list s of None \<Rightarrow> False
      | Some l \<Rightarrow> seg (heap s) None (first l) ns (last' l) None
                  \<and> distinct (map fst ns) \<and> list_all (\<lambda>(a, d). a < brk s) ns
                  \<and> unat (nb_elements l) = length ns)"

definition cfg :: "lstate \<Rightarrow> (f_cmp \<times> list_adapter \<times> u32) option" where
  "cfg s = map_option (\<lambda>l. (comparator l, adapter l, nb_iterators l)) (list s)"

text \<open>
  Sorted insertion on the sequence of payloads: before the first element that the new
  one compares less than, at the end when there is none; and a push of each key in turn.
\<close>

definition sorted_insert :: "f_cmp \<Rightarrow> ptr \<Rightarrow> ptr list \<Rightarrow> ptr list" where
  "sorted_insert cmp d xs =
     takeWhile (\<lambda>x. \<not> cmp d x <s 0) xs @ d # dropWhile (\<lambda>x. \<not> cmp d x <s 0) xs"









text \<open>
  The bookkeeping the ring buffer keeps for \<open>occ\<close> occupied bytes: both cursors lie between
  0 and the capacity (inclusive); when \<open>full\<close> is set the cursors are equal and the buffer
  holds the capacity; otherwise the occupied bytes are the distance from the read cursor
  to the write cursor, around the end of the region when the write cursor is behind.
\<close>

definition cb_inv :: "circular_buffer \<Rightarrow> nat \<Rightarrow> bool" where
  "cb_inv b occ \<longleftrightarrow>
     read_ptr b \<le> unat (size_cb b) \<and> write_ptr b \<le> unat (size_cb b) \<and>
     (if full b then occ = unat (size_cb b) \<and> write_ptr b = read_ptr b
      else occ = (if write_ptr b < read_ptr b
                  then unat (size_cb b) - read_ptr b + write_ptr b
                  else write_ptr b - read_ptr b))"

text \<open>
  Two references match when they differ by a multiple of \<open>2^32\<close>; \<open>d\<close> is below \<open>x\<close> when the
  difference \<open>d - x\<close>, truncated to a signed 32-bit value, is negative.
\<close>

definition ref_match :: "ptr \<Rightarrow> ptr \<Rightarrow> bool" where
  "ref_match key d \<longleftrightarrow> (uint d - uint key) mod 2 ^ 32 = 0"

definition ref_less :: "ptr \<Rightarrow> ptr \<Rightarrow> bool" where
  "ref_less d x \<longleftrightarrow> signed_take_bit 31 (uint d - uint x) < 0"

section \<open>Ring buffer: results\<close>

subsection \<open>Arithmetic of the byte counts\<close>

lemma replicate_4: "replicate 4 x = [x, x, x, x]"
  by (simp add: eval_nat_numeral)

lemma replicate_8: "replicate 8 x = [x, x, x, x, x, x, x, x]"
  by (simp add: eval_nat_numeral)

lemma take_drop_2: "take 2 (x # y # xs) = [x, y]" "drop 2 (x # y # xs) = xs"
  by (simp_all add: eval_nat_numeral)

lemma unat_elements_to_size:
  assumes "unat elems * unat (elem_size desc) \<le> unat (size_cb desc)"
  shows "unat (elements_to_size desc elems) = unat elems * unat (elem_size desc)"
proof -
  have "unat (size_cb desc) < 2 ^ 32"
    using unsigned_less [of "size_cb desc"] by simp
  with assms have "unat elems * unat (elem_size desc) < 2 ^ LENGTH(32)" by simp
  then show ?thesis
    unfolding elements_to_size_def by (simp add: unat_mult_lem [THEN iffD1])
qed

lemma unat_size_minus_offset:
  assumes "p \<le> unat (size_cb desc)"
  shows "unat (size_cb desc - ptr_to_offset desc p) = unat (size_cb desc) - p"
proof -
  have "unat (size_cb desc) < 2 ^ 32"
    using unsigned_less [of "size_cb desc"] by simp
  with assms have p: "unat (of_nat p :: u32) = p" by (simp add: unat_of_nat)
  then have "(of_nat p :: u32) \<le> size_cb desc"
    using assms by (simp add: word_le_nat_alt)
  then show ?thesis
    unfolding ptr_to_offset_def using p by (simp add: unat_sub)
qed

subsection \<open>Construction\<close>

lemma circular_buffer_init_4x1:
  "circular_buffer_init (\<lambda>n sz. True) 48 True 4 1 = (SUCCESS, Some cb_4x1)"
  by (simp add: circular_buffer_init_def cb_4x1_def replicate_4)

lemma circular_buffer_init_4x2:
  "circular_buffer_init (\<lambda>n sz. True) 48 True 4 2 = (SUCCESS, Some cb_4x2)"
  by (simp add: circular_buffer_init_def cb_4x2_def replicate_8)

lemma circular_buffer_init_zero_fails:
  "n = 0 \<or> es = 0 \<Longrightarrow>
   circular_buffer_init calloc_ok sd nn n es = (FAILURE, None)"
  by (auto simp: circular_buffer_init_def)

lemma circular_buffer_init_success:
  assumes "circular_buffer_init calloc_ok sd nn n es = (SUCCESS, Some b)"
  shows "buff b = replicate (unat n * unat es) 0
         \<and> read_ptr b = 0 \<and> write_ptr b = 0 \<and> \<not> full b
         \<and> size_cb b = n * es"
  using assms by (auto simp: circular_buffer_init_def Let_def split: if_splits)

text \<open>
  C3. \<open>circular_buffer_init\<close> is meant to fail when \<open>nb_elements * element_size\<close> does not
  fit 32 bits. For 3 elements of \<open>0x80000001\<close> bytes the product is 6442450947, above
  \<open>2^32\<close>, yet the wrapped product \<open>0x80000003\<close> is not below either argument: when the
  allocations succeed the call returns \<open>SUCCESS\<close> with \<open>size = 0x80000003\<close>.
\<close>

theorem circular_buffer_init_overflow_undetected:
  "unat (3 :: u32) * unat (0x80000001 :: u32) = 6442450947
   \<and> (2 :: nat) ^ 32 \<le> 6442450947
   \<and> circular_buffer_init (\<lambda>n sz. True) 48 True 3 0x80000001 =
       (SUCCESS, Some \<lparr>size_cb = 0x80000003, nb_elem = 3, elem_size = 0x80000001,
                        buff = replicate 6442450947 0, read_ptr = 0, write_ptr = 0,
                        full = False\<rparr>)"
  by (simp add: circular_buffer_init_def)

theorem circular_buffer_init_overflow_undetected_witness:
  "fst (circular_buffer_init (\<lambda>n sz. True) 48 True 3 0x80000001) = SUCCESS"
  using circular_buffer_init_overflow_undetected by simp

subsection \<open>Writing\<close>

lemma circular_buffer_write_rejects:
  assumes "full b \<or> size_cb b - get_unread_size b < elements_to_size b n"
  shows "circular_buffer_write (Some b) src n = Some (FAILURE, Some b)"
  using assms by (auto simp: circular_buffer_write_def Let_def)

text \<open>
  C8. A write whose byte count exceeds the free space has to fail and leave the buffer as
  it is. On the fresh buffer of four two-byte elements (8 bytes free), a write of
  \<open>0x80000001\<close> elements asks for 4294967298 bytes; \<open>elements_to_size\<close> wraps the count to
  2, the call returns \<open>SUCCESS\<close>, copies two bytes and moves the write cursor.
\<close>

theorem circular_buffer_write_count_wraps:
  "unat (0x80000001 :: u32) * unat (elem_size cb_4x2) = 4294967298
   \<and> unat (size_cb cb_4x2) - unat (get_unread_size cb_4x2) = 8
   \<and> circular_buffer_write (Some cb_4x2) (replicate 4294967298 7) 0x80000001 =
       Some (SUCCESS, Some (cb_4x2\<lparr>buff := [7, 7, 0, 0, 0, 0, 0, 0], write_ptr := 2\<rparr>))"
proof -
  have "circular_buffer_write (Some cb_4x2) (replicate 4294967298 7) 0x80000001 =
       Some (SUCCESS, Some (cb_4x2\<lparr>buff := [7, 7, 0, 0, 0, 0, 0, 0], write_ptr := 2\<rparr>))"
    apply (simp add: circular_buffer_write_def cb_4x2_def elements_to_size_def
        get_unread_size_def ptr_to_offset_def memcpy_def take_drop_2)
    apply (simp add: eval_nat_numeral)
    done
  then show ?thesis
    by (simp add: cb_4x2_def get_unread_size_def)
qed

theorem circular_buffer_write_count_wraps_witness:
  "map_option fst (circular_buffer_write (Some cb_4x2) (replicate 4294967298 7) 0x80000001)
     = Some SUCCESS"
  using circular_buffer_write_count_wraps by simp

subsection \<open>The \<open>full\<close> flag\<close>

lemma circular_buffer_read_zero_clears_full:
  "circular_buffer_read (Some (cb_4x1\<lparr>buff := [1, 2, 3, 4], full := True\<rparr>)) [] 0 =
     Some (SUCCESS, Some (cb_4x1\<lparr>buff := [1, 2, 3, 4], full := False\<rparr>), [])"
  by (simp add: circular_buffer_read_def cb_4x1_def elements_to_size_def
      get_unread_size_def ptr_to_offset_def memcpy_def)

text \<open>
  For reads and writes that move at least one byte, \<open>get_unread_size\<close> is the number of
  bytes stored and not yet read: \<open>cb_inv\<close> holds after construction and is preserved.
\<close>

lemma unat_get_unread_size:
  assumes "cb_inv b occ"
  shows "unat (get_unread_size b) = occ"
proof -
  let ?S = "unat (size_cb b)"
  have bnd: "?S < 4294967296" using unsigned_less [of "size_cb b"] by simp
  from assms have r: "read_ptr b \<le> ?S" and w: "write_ptr b \<le> ?S" by (auto simp: cb_inv_def)
  show ?thesis
  proof (cases "full b")
    case True
    then show ?thesis using assms by (simp add: cb_inv_def get_unread_size_def)
  next
    case nf: False
    show ?thesis
    proof (cases "write_ptr b < read_ptr b")
      case True
      let ?X = "size_cb b - ptr_to_offset b (read_ptr b)"
      let ?Y = "of_nat (write_ptr b) :: u32"
      have x: "unat ?X = ?S - read_ptr b" by (rule unat_size_minus_offset [OF r])
      have y: "unat ?Y = write_ptr b" using w bnd by (simp add: unat_of_nat)
      have "unat (?X + ?Y) = (unat ?X + unat ?Y) mod 2 ^ LENGTH(32)"
        by (rule unat_word_ariths(1))
      also have "\<dots> = ?S - read_ptr b + write_ptr b"
        using True r bnd by (simp only: x y) simp
      finally show ?thesis using True nf assms by (simp add: cb_inv_def get_unread_size_def)
    next
      case False
      have "unat (of_nat (write_ptr b - read_ptr b) :: u32) = write_ptr b - read_ptr b"
        using w bnd by (simp add: unat_of_nat)
      then show ?thesis using False nf assms by (simp add: cb_inv_def get_unread_size_def)
    qed
  qed
qed

lemma circular_buffer_write_inv:
  assumes inv: "cb_inv b occ"
    and w: "circular_buffer_write (Some b) src k = Some (SUCCESS, Some b')"
    and nz: "elements_to_size b k \<noteq> 0"
  shows "cb_inv b' (occ + unat (elements_to_size b k))"
proof -
  let ?S = "unat (size_cb b)" and ?n = "unat (elements_to_size b k)"
  have u: "unat (get_unread_size b) = occ" by (rule unat_get_unread_size [OF inv])
  from inv have r: "read_ptr b \<le> ?S" and wp: "write_ptr b \<le> ?S" by (auto simp: cb_inv_def)
  have m: "unat (size_cb b - ptr_to_offset b (write_ptr b)) = ?S - write_ptr b"
    by (rule unat_size_minus_offset [OF wp])
  from w have nf: "\<not> full b" by (auto simp: circular_buffer_write_def split: if_splits)
  have occS: "occ \<le> ?S" using inv nf r wp by (auto simp: cb_inv_def split: if_splits)
  have free: "unat (size_cb b - get_unread_size b) = ?S - occ"
    using u occS by (simp add: unat_sub word_le_nat_alt)
  from w nf have fits: "?n \<le> ?S - occ"
    using free by (auto simp: circular_buffer_write_def Let_def word_less_nat_alt split: if_splits)
  have npos: "0 < ?n" using nz by (simp add: unat_gt_0)
  show ?thesis
  proof (cases "?S - write_ptr b < ?n")
    case True
    have d: "unat (elements_to_size b k - (size_cb b - ptr_to_offset b (write_ptr b)))
             = ?n - (?S - write_ptr b)"
      using True m by (simp add: unat_sub word_le_nat_alt)
    from w nf True have b': "write_ptr b' = ?n - (?S - write_ptr b)" "read_ptr b' = read_ptr b"
      "size_cb b' = size_cb b" "full b' = (?n - (?S - write_ptr b) = read_ptr b)"
      using fits free m d
      by (auto simp: circular_buffer_write_def Let_def word_less_nat_alt
          split: if_splits bind_splits)
    show ?thesis using inv nf True fits npos r wp
      by (auto simp: cb_inv_def b' split: if_splits)
  next
    case False
    from w nf False have b': "write_ptr b' = write_ptr b + ?n" "read_ptr b' = read_ptr b"
      "size_cb b' = size_cb b" "full b' = (write_ptr b + ?n = read_ptr b)"
      using fits free m
      by (auto simp: circular_buffer_write_def Let_def word_less_nat_alt
          split: if_splits bind_splits)
    show ?thesis using inv nf False fits npos r wp
      by (auto simp: cb_inv_def b' split: if_splits)
  qed
qed

lemma circular_buffer_read_inv:
  assumes inv: "cb_inv b occ"
    and rd: "circular_buffer_read (Some b) out k = Some (SUCCESS, Some b', out')"
    and nz: "elements_to_size b k \<noteq> 0"
  shows "unat (elements_to_size b k) \<le> occ \<and> cb_inv b' (occ - unat (elements_to_size b k))"
proof -
  let ?S = "unat (size_cb b)" and ?n = "unat (elements_to_size b k)"
  have u: "unat (get_unread_size b) = occ" by (rule unat_get_unread_size [OF inv])
  from inv have r: "read_ptr b \<le> ?S" and wp: "write_ptr b \<le> ?S" by (auto simp: cb_inv_def)
  have m: "unat (size_cb b - ptr_to_offset b (read_ptr b)) = ?S - read_ptr b"
    by (rule unat_size_minus_offset [OF r])
  from rd have fits: "?n \<le> occ"
    using u by (auto simp: circular_buffer_read_def Let_def word_less_nat_alt split: if_splits)
  have npos: "0 < ?n" using nz by (simp add: unat_gt_0)
  show ?thesis
  proof (cases "?S - read_ptr b < ?n")
    case True
    have d: "unat (elements_to_size b k - (size_cb b - ptr_to_offset b (read_ptr b)))
             = ?n - (?S - read_ptr b)"
      using True m by (simp add: unat_sub word_le_nat_alt)
    from rd True have b': "read_ptr b' = ?n - (?S - read_ptr b)" "write_ptr b' = write_ptr b"
      "size_cb b' = size_cb b" "\<not> full b'"
      using fits u m d
      by (auto simp: circular_buffer_read_def Let_def word_less_nat_alt
          split: if_splits bind_splits)
    show ?thesis using inv True fits npos r wp
      by (auto simp: cb_inv_def b' split: if_splits)
  next
    case False
    from rd False have b': "read_ptr b' = read_ptr b + ?n" "write_ptr b' = write_ptr b"
      "size_cb b' = size_cb b" "\<not> full b'"
      using fits u m
      by (auto simp: circular_buffer_read_def Let_def word_less_nat_alt
          split: if_splits bind_splits)
    show ?thesis using inv False fits npos r wp
      by (auto simp: cb_inv_def b' split: if_splits)
  qed
qed

lemma circular_buffer_init_inv:
  "circular_buffer_init calloc_ok sd nn n es = (SUCCESS, Some b) \<Longrightarrow> cb_inv b 0"
  by (auto simp: circular_buffer_init_def cb_inv_def Let_def split: if_splits)

text \<open>
  C2. The invariant says that \<open>full\<close> holds exactly when the occupied bytes equal the
  capacity. On the fresh buffer of four one-byte elements, which holds no data:
  a write of zero elements succeeds and sets \<open>full\<close>, after which the buffer reports four
  unread bytes; and a write of four elements, which fills the buffer, leaves the write
  cursor at offset 4 and \<open>full\<close> unset.
\<close>

theorem circular_buffer_full_flag_not_invariant:
  "circular_buffer_write (Some cb_4x1) [] 0 = Some (SUCCESS, Some (cb_4x1\<lparr>full := True\<rparr>))
   \<and> get_unread_size (cb_4x1\<lparr>full := True\<rparr>) = 4
   \<and> circular_buffer_write (Some cb_4x1) [1, 2, 3, 4] 4 =
       Some (SUCCESS, Some (cb_4x1\<lparr>buff := [1, 2, 3, 4], write_ptr := 4\<rparr>))
   \<and> full (cb_4x1\<lparr>buff := [1, 2, 3, 4], write_ptr := 4\<rparr>) = False"
  by (simp add: circular_buffer_write_def cb_4x1_def elements_to_size_def
      get_unread_size_def ptr_to_offset_def memcpy_def)

theorem circular_buffer_full_flag_not_invariant_witness:
  "map_option fst (circular_buffer_write (Some cb_4x1) [] 0) = Some SUCCESS"
  using circular_buffer_full_flag_not_invariant by simp

subsection \<open>Round trip\<close>

lemma circular_buffer_write_empty:
  assumes len: "length (buff b) = unat (size_cb b)"
    and eq: "read_ptr b = write_ptr b"
    and le: "write_ptr b \<le> unat (size_cb b)"
    and nf: "\<not> full b"
    and fits: "unat k * unat (elem_size b) \<le> unat (size_cb b)"
    and src: "length src = unat k * unat (elem_size b)"
  shows "circular_buffer_write (Some b) src k =
    Some (SUCCESS, Some
      (if unat (size_cb b) - write_ptr b < length src
       then b\<lparr>buff := drop (unat (size_cb b) - write_ptr b) src
                    @ drop (length src - (unat (size_cb b) - write_ptr b)) (take (write_ptr b) (buff b))
                    @ take (unat (size_cb b) - write_ptr b) src,
              write_ptr := length src - (unat (size_cb b) - write_ptr b),
              full := (length src = unat (size_cb b))\<rparr>
       else b\<lparr>buff := take (write_ptr b) (buff b) @ src @ drop (write_ptr b + length src) (buff b),
              write_ptr := write_ptr b + length src,
              full := (length src = 0)\<rparr>))"
proof -
  have n: "unat (elements_to_size b k) = length src"
    using unat_elements_to_size [OF fits] src by simp
  have m: "unat (size_cb b - ptr_to_offset b (write_ptr b)) = unat (size_cb b) - write_ptr b"
    by (rule unat_size_minus_offset [OF le])
  have u: "get_unread_size b = 0"
    using nf eq by (simp add: get_unread_size_def)
  have fits': "length src \<le> unat (size_cb b)" using fits src by simp
  show ?thesis
  proof (cases "unat (size_cb b) - write_ptr b < length src")
    case True
    have d: "unat (elements_to_size b k - (size_cb b - ptr_to_offset b (write_ptr b)))
             = length src - (unat (size_cb b) - write_ptr b)"
      using True n m by (simp add: unat_sub word_le_nat_alt)
    show ?thesis
      using True nf u fits' le len eq
      apply (simp add: circular_buffer_write_def word_less_nat_alt n m d memcpy_def Let_def)
      apply (auto simp: circular_buffer.equality)
      done
  next
    case False
    show ?thesis
      using False nf u fits' le len eq
      by (simp add: circular_buffer_write_def word_less_nat_alt n m memcpy_def Let_def)
  qed
qed


lemma circular_buffer_read_back:
  assumes len: "length (buff b) = unat (size_cb b)"
    and eq: "read_ptr b = write_ptr b"
    and le: "write_ptr b \<le> unat (size_cb b)"
    and nf: "\<not> full b"
    and fits: "unat k * unat (elem_size b) \<le> unat (size_cb b)"
    and src: "length src = unat k * unat (elem_size b)"
    and dst: "length src \<le> length out"
    and w: "circular_buffer_write (Some b) src k = Some (SUCCESS, Some b1)"
  shows "\<exists>b2. circular_buffer_read (Some b1) out k =
           Some (SUCCESS, Some b2, src @ drop (length src) out)"
proof -
  have fits': "length src \<le> unat (size_cb b)" using fits src by simp
  have bnd: "unat (size_cb b) < 4294967296" using unsigned_less [of "size_cb b"] by simp
  show ?thesis
  proof (cases "unat (size_cb b) - write_ptr b < length src")
    case True
    then have b1: "b1 = b\<lparr>buff := drop (unat (size_cb b) - write_ptr b) src
                    @ drop (length src - (unat (size_cb b) - write_ptr b)) (take (write_ptr b) (buff b))
                    @ take (unat (size_cb b) - write_ptr b) src,
              write_ptr := length src - (unat (size_cb b) - write_ptr b),
              full := (length src = unat (size_cb b))\<rparr>"
      using w circular_buffer_write_empty [OF len eq le nf fits src] by simp
    have n: "unat (elements_to_size b1 k) = length src"
      using unat_elements_to_size [of k b1] fits src by (simp add: b1)
    have m: "unat (size_cb b1 - ptr_to_offset b1 (read_ptr b1)) = unat (size_cb b) - write_ptr b"
      using unat_size_minus_offset [of "read_ptr b1" b1] le eq by (simp add: b1)
    have d: "unat (elements_to_size b1 k - (size_cb b1 - ptr_to_offset b1 (read_ptr b1)))
             = length src - (unat (size_cb b) - write_ptr b)"
      using True n m by (simp add: unat_sub word_le_nat_alt)
    have u: "unat (get_unread_size b1) = length src"
    proof (cases "length src = unat (size_cb b)")
      case True
      then show ?thesis by (simp add: get_unread_size_def b1)
    next
      case False
      let ?X = "size_cb b - ptr_to_offset b (write_ptr b)"
      let ?Y = "of_nat (length src - (unat (size_cb b) - write_ptr b)) :: u32"
      have x: "unat ?X = unat (size_cb b) - write_ptr b"
        by (rule unat_size_minus_offset [OF le])
      have y: "unat ?Y = length src - (unat (size_cb b) - write_ptr b)"
        using fits' bnd by (simp add: unat_of_nat)
      have "unat (?X + ?Y) = (unat ?X + unat ?Y) mod 2 ^ LENGTH(32)"
        by (rule unat_word_ariths(1))
      also have "\<dots> = length src"
        using \<open>unat (size_cb b) - write_ptr b < length src\<close> fits' bnd le
        by (simp only: x y) simp
      finally have "unat (?X + ?Y) = length src" .
      then show ?thesis
        using False \<open>unat (size_cb b) - write_ptr b < length src\<close> fits' le
        by (auto simp add: get_unread_size_def b1 eq ptr_to_offset_def)
    qed
    show ?thesis
      using True fits' le len eq dst
      apply (simp add: circular_buffer_read_def word_less_nat_alt n m d u memcpy_def Let_def)
      apply (simp add: b1)
      done
  next
    case False
    then have b1: "b1 = b\<lparr>buff := take (write_ptr b) (buff b) @ src @ drop (write_ptr b + length src) (buff b),
              write_ptr := write_ptr b + length src,
              full := (length src = 0)\<rparr>"
      using w circular_buffer_write_empty [OF len eq le nf fits src] by simp
    have n: "unat (elements_to_size b1 k) = length src"
      using unat_elements_to_size [of k b1] fits src by (simp add: b1)
    have m: "unat (size_cb b1 - ptr_to_offset b1 (read_ptr b1)) = unat (size_cb b) - write_ptr b"
      using unat_size_minus_offset [of "read_ptr b1" b1] le eq by (simp add: b1)
    have u: "length src \<le> unat (get_unread_size b1)"
      using fits' bnd by (simp add: get_unread_size_def b1 eq unat_of_nat)
    show ?thesis
      using False fits' le len eq dst u
      apply (simp add: circular_buffer_read_def word_less_nat_alt n m memcpy_def Let_def)
      apply (simp add: b1)
      done
  qed
qed

text \<open>
  C7. On a buffer that holds no unread data, with both cursors at the same offset of the
  region, a write of \<open>k\<close> elements that fit the capacity succeeds, and the read of \<open>k\<close>
  elements that follows succeeds and delivers the written bytes in order (the caller's
  destination \<open>out\<close> holds them in front of its untouched rest), whether or not the copy
  wraps around the end of the region.
\<close>

theorem circular_buffer_roundtrip:
  assumes "length (buff b) = unat (size_cb b)"
    and "read_ptr b = write_ptr b"
    and "write_ptr b \<le> unat (size_cb b)"
    and "\<not> full b"
    and "unat k * unat (elem_size b) \<le> unat (size_cb b)"
    and "length src = unat k * unat (elem_size b)"
    and "length src \<le> length out"
  shows "\<exists>b1 b2. circular_buffer_write (Some b) src k = Some (SUCCESS, Some b1)
           \<and> circular_buffer_read (Some b1) out k =
               Some (SUCCESS, Some b2, src @ drop (length src) out)"
proof -
  obtain b1 where w: "circular_buffer_write (Some b) src k = Some (SUCCESS, Some b1)"
    using circular_buffer_write_empty [OF assms(1-6)] by blast
  from circular_buffer_read_back [OF assms w]
  obtain b2 where "circular_buffer_read (Some b1) out k =
      Some (SUCCESS, Some b2, src @ drop (length src) out)" by blast
  with w show ?thesis by blast
qed

theorem circular_buffer_roundtrip_witness:
  "\<exists>b1 b2. circular_buffer_write (Some cb_at3) [1, 2, 3] 3 = Some (SUCCESS, Some b1)
     \<and> circular_buffer_read (Some b1) [0, 0, 0] 3 = Some (SUCCESS, Some b2, [1, 2, 3])"
  using circular_buffer_roundtrip [of cb_at3 3 "[1, 2, 3]" "[0, 0, 0]"]
  by (simp add: cb_at3_def)

section \<open>List: results on concrete states\<close>

lemma list_init_mem0: "list_init True None LIST_DEFAULT mem0 = (SUCCESS, ls_empty)"
  by (simp add: list_defs)

lemma ls_ab_built:
  "do { (r, s) \<leftarrow> list_add_last ls_empty 10; list_add_last s 20 } = Some (SUCCESS, ls_ab)"
  by (simp add: list_defs Let_def numeral_2_eq_2)

lemma ls_ab_it_built:
  "iterator_init ls_ab False = (SUCCESS, Some \<lparr>elem = Some 1\<rparr>, ls_ab_it)"
  by (simp add: list_defs)

lemma ls_nul_built:
  "do { (r, s) \<leftarrow> list_add_last ls_empty 1; (r, s) \<leftarrow> list_add_last s 0; list_add_last s 2 }
     = Some (SUCCESS, ls_nul)"
  by (simp add: list_defs Let_def numeral_2_eq_2 numeral_3_eq_3)

text \<open>
  C4. A replace on an empty target has to return \<open>FAILURE\<close>. On the empty list built by
  \<open>list_init\<close>, \<open>list_edit_first\<close> and \<open>list_edit_last\<close> store through the null pointers
  \<open>list->first\<close> and \<open>list->last\<close>, and \<open>iterator_edit\<close> on an iterator without a position
  stores through the null \<open>it->elem\<close>: none of them returns at all (undefined behaviour),
  whereas the read functions test the pointer and return \<open>FAILURE\<close>.
\<close>

theorem edit_on_empty_dereferences_null:
  "list_edit_first ls_empty d = None
   \<and> list_edit_last ls_empty d = None
   \<and> iterator_edit (Some \<lparr>elem = None\<rparr>) d ls_empty = None
   \<and> list_read_first ls_empty = Some (0, FAILURE)
   \<and> list_read_last ls_empty = Some (0, FAILURE)
   \<and> iterator_read (Some \<lparr>elem = None\<rparr>) ls_empty = Some (0, FAILURE)"
  by (simp add: list_defs)

theorem edit_on_empty_dereferences_null_witness:
  "list_edit_first ls_empty 5 \<noteq> Some (FAILURE, ls_empty)"
  using edit_on_empty_dereferences_null [of 5] by simp

text \<open>
  C1. The header documents for \<open>iterator_get\<close>: if the current item is the last one, the
  iterator is moved to the previous one. On the list 10, 20 with the iterator on the tail
  (node 1), \<open>iterator_get\<close> returns 20, makes node 0 the tail and leaves one element, but
  the iterator's position is null and not node 0: \<open>list->last\<close> has already been updated
  when the code compares \<open>it->elem\<close> with it.
\<close>

theorem iterator_get_tail_loses_position:
  "map_option (\<lambda>(d, r, it, s). (d, r, it, map_option first (list s),
                                   map_option last' (list s), map_option nb_elements (list s)))
     (iterator_get (Some \<lparr>elem = Some 1\<rparr>) ls_ab_it)
   = Some (20, SUCCESS, Some \<lparr>elem = None\<rparr>, Some (Some 0), Some (Some 0), Some 1)"
  by (simp add: list_defs)

theorem iterator_get_tail_loses_position_witness:
  "map_option (\<lambda>(d, r, it, s). it) (iterator_get (Some \<lparr>elem = Some 1\<rparr>) ls_ab_it)
   = Some (Some \<lparr>elem = None\<rparr>)"
proof -
  obtain d r it s where
    g: "iterator_get (Some \<lparr>elem = Some 1\<rparr>) ls_ab_it = Some (d, r, it, s)"
    and "it = Some \<lparr>elem = None\<rparr>"
    using iterator_get_tail_loses_position by (auto simp: map_option_case split: option.splits)
  then show ?thesis by simp
qed

section \<open>Iterator movement\<close>

lemma move_loop_walk:
  "0 \<le> sint idx \<Longrightarrow> move_loop h dir idx el = walk h (0 <s dir) (nat (sint idx)) el"
proof (induction h dir idx el rule: move_loop.induct)
  case (1 h dir idx el)
  show ?case
  proof (cases "0 <s idx \<and> el \<noteq> None")
    case True
    then obtain a where el: "el = Some a" by auto
    from True have pos: "0 < sint idx" by (simp add: word_sless_alt)
    have pred: "sint (idx - 1) = sint idx - 1" using True by (simp add: sint_pred)
    have suc: "nat (sint idx) = Suc (nat (sint (idx - 1)))" using pos pred by simp
    show ?thesis
    proof (cases "h a")
      case None
      then show ?thesis using True el suc by (simp del: move_loop.simps add: move_loop.simps [of h dir idx])
    next
      case (Some x)
      have "move_loop h dir (idx - 1) (if 0 <s dir then next' x else prev x)
            = walk h (0 <s dir) (nat (sint (idx - 1))) (if 0 <s dir then next' x else prev x)"
        using "1.IH" [of x] True Some el pos pred by simp
      then show ?thesis using True el suc Some
        by (simp del: move_loop.simps add: move_loop.simps [of h dir idx])
    qed
  next
    case False
    have ml: "move_loop h dir idx el = Some el"
      by (subst move_loop.simps) (simp only: False if_False)
    show ?thesis
    proof (cases el)
      case None
      then show ?thesis unfolding ml by (cases "nat (sint idx)") simp_all
    next
      case (Some a)
      with False have "\<not> 0 <s idx" by simp
      with "1.prems" have "sint idx = 0" by (simp add: word_sless_alt)
      then show ?thesis unfolding ml by simp
    qed
  qed
qed

lemma sint_neg: "idx \<noteq> (0x80000000 :: i32) \<Longrightarrow> sint (- idx) = - sint idx"
proof -
  assume a: "idx \<noteq> 0x80000000"
  have "sint idx \<noteq> - (2 ^ 31)"
  proof
    assume "sint idx = - (2 ^ 31)"
    then have "word_of_int (sint idx) = (word_of_int (- (2 ^ 31)) :: i32)" by simp
    then show False using a by simp
  qed
  moreover have "- (2 ^ 31) \<le> sint idx" using sint_ge [of idx] by simp
  moreover have "sint idx < 2 ^ 31" using sint_lt [of idx] by simp
  ultimately have "- (2 ^ 31) \<le> - sint idx \<and> - sint idx < 2 ^ 31" by simp
  then have "signed_take_bit 31 (- sint idx) = - sint idx"
    by (simp add: signed_take_bit_int_eq_self)
  then show ?thesis using sint_word_minus [of idx] by simp
qed

lemma iterator_move_walk:
  assumes "idx \<noteq> 0x80000000"
  shows "iterator_move (Some i) idx s =
     (case walk (heap s) (\<not> idx <s 0) (nat \<bar>sint idx\<bar>) (elem i) of
        None \<Rightarrow> None
      | Some None \<Rightarrow> Some (FAILURE, Some i)
      | Some (Some a) \<Rightarrow> Some (SUCCESS, Some (i\<lparr>elem := Some a\<rparr>)))"
proof (cases "idx <s 0")
  case True
  then have neg: "sint idx < 0" by (simp add: word_sless_alt)
  have s: "sint (- idx) = - sint idx" by (rule sint_neg [OF assms])
  have d: "\<not> (0 :: i32) <s - 1" by (simp add: word_sless_alt)
  have "move_loop (heap s) (- 1) (- idx) (elem i) = walk (heap s) False (nat \<bar>sint idx\<bar>) (elem i)"
    using move_loop_walk [of "- idx" "heap s" "- 1" "elem i"] neg s d by simp
  then show ?thesis using True assms
    by (auto simp: iterator_move_def abs_i32_def Let_def split: option.splits)
next
  case False
  then have nn: "0 \<le> sint idx" by (simp add: word_sless_alt)
  have d: "(0 :: i32) <s 1" by (simp add: word_sless_alt)
  have "move_loop (heap s) 1 idx (elem i) = walk (heap s) True (nat \<bar>sint idx\<bar>) (elem i)"
    using move_loop_walk [of idx "heap s" 1 "elem i"] nn d by simp
  then show ?thesis using False assms
    by (auto simp: iterator_move_def abs_i32_def Let_def split: option.splits)
qed

text \<open>
  C6. \<open>iterator_move\<close> has to fail, with the position unchanged, whenever the steps leave
  the chain, for every 32-bit \<open>n\<close>. For \<open>n = INT32_MIN\<close> the code evaluates \<open>abs(idx)\<close>, whose
  result is not representable: the call has no defined outcome (on two's complement
  targets \<open>abs\<close> returns \<open>INT32_MIN\<close>, the loop is skipped and \<open>SUCCESS\<close> is returned without
  any step). Here on the list 10, 20 with the iterator on the head.
\<close>

theorem iterator_move_int_min_undefined:
  "iterator_move (Some \<lparr>elem = Some 0\<rparr>) 0x80000000 ls_ab = None
   \<and> iterator_move (Some \<lparr>elem = Some 0\<rparr>) (- 1) ls_ab = Some (FAILURE, Some \<lparr>elem = Some 0\<rparr>)
   \<and> iterator_move (Some \<lparr>elem = Some 0\<rparr>) 1 ls_ab = Some (SUCCESS, Some \<lparr>elem = Some 1\<rparr>)"
  by (simp add: list_defs word_sless_alt)

theorem iterator_move_int_min_undefined_witness:
  "iterator_move (Some \<lparr>elem = Some 0\<rparr>) 0x80000000 ls_ab
     \<noteq> Some (FAILURE, Some \<lparr>elem = Some 0\<rparr>)"
  using iterator_move_int_min_undefined by simp

section \<open>Destruction of the list\<close>

lemma list_remove_live_iterators:
  "list s = Some l \<Longrightarrow> nb_iterators l \<noteq> 0 \<Longrightarrow> list_remove s = Some (FAILURE, s)"
  by (simp add: list_remove_def)

text \<open>
  C9. With no live iterator \<open>list_remove\<close> has to drain all elements before it releases
  the list. On the list 1, 0, 2 the loop stops at the null payload of the second element:
  the call returns \<open>SUCCESS\<close> and releases the descriptor while node 2, holding the payload
  2, is still allocated.
\<close>

theorem list_remove_stops_at_null_payload:
  "list_remove ls_nul =
     Some (SUCCESS, \<lparr>heap = (\<lambda>_. None)(2 \<mapsto> \<lparr>data = 2, prev = None, next' = None\<rparr>),
                     list = None, brk = 3, quota = 4\<rparr>)"
  apply (simp add: list_remove_def ls_nul_def desc0_def)
  apply (subst remove_loop.simps)
  apply (simp add: list_defs)
  apply (subst remove_loop.simps)
  apply (simp add: list_defs)
  done

theorem list_remove_stops_at_null_payload_witness:
  "map_option (\<lambda>(r, s). (r, heap s 2)) (list_remove ls_nul)
     = Some (SUCCESS, Some \<lparr>data = 2, prev = None, next' = None\<rparr>)"
  using list_remove_stops_at_null_payload by simp

section \<open>The default comparator\<close>

lemma uint_default_comparator:
  "uint (default_comparator a b) = (uint a - uint b) mod 2 ^ 32"
proof -
  have "uint (default_comparator a b) = take_bit 32 (uint (a - b))"
    by (simp add: default_comparator_def unsigned_ucast_eq)
  also have "\<dots> = take_bit 32 (take_bit 64 (uint a - uint b))"
    by (simp add: uint_word_arith_bintrs)
  also have "\<dots> = take_bit 32 (uint a - uint b)"
    by simp
  finally show ?thesis by (simp add: take_bit_eq_mod)
qed

lemma default_comparator_eq_0:
  "default_comparator a b = 0 \<longleftrightarrow> (uint a - uint b) mod 2 ^ 32 = 0"
  using uint_default_comparator [of a b] by (metis uint_0_iff)

lemma default_comparator_matches_other_reference:
  "list_read_find ls_hi 0 = Some (0x100000000, SUCCESS, set_l_it (Some 0) ls_hi)"
  apply (simp add: list_read_find_def list_defs)
  apply (subst find_loop.simps)
  apply (simp add: default_comparator_def list_defs Let_def)
  done

section \<open>Sorted insertion and the priority adapter\<close>

subsection \<open>Segments of the chain\<close>

lemma seg_append:
  "seg h p c (xs @ ys) q n \<longleftrightarrow> (\<exists>pm m. seg h p c xs pm m \<and> seg h pm m ys q n)"
proof (induction xs arbitrary: p c)
  case Nil
  show ?case by simp
next
  case (Cons x xs)
  obtain a d where x: "x = (a, d)" by (cases x)
  show ?case
  proof (cases "h a")
    case None
    then show ?thesis by (simp add: x)
  next
    case (Some y)
    then show ?thesis by (simp add: x Cons.IH)
  qed
qed

lemma seg_frame:
  "a \<notin> fst ` set ns \<Longrightarrow> seg (h(a := v)) p c ns q n = seg h p c ns q n"
  by (induction ns arbitrary: p c) (auto split: option.splits)

lemma seg_last:
  "seg h p c ns q n \<Longrightarrow> q = (if ns = [] then p else Some (fst (last ns)))"
  by (induction ns arbitrary: p c) (auto split: option.splits)

lemma seg_first:
  "seg h p c ns q n \<Longrightarrow> c = (if ns = [] then n else Some (fst (hd ns)))"
  by (cases ns) auto


lemma unat_inc: "Suc (unat (n :: u32)) < 2 ^ 32 \<Longrightarrow> unat (n + 1) = Suc (unat n)"
  using unat_add_lem [of n 1] by simp

lemma unat_dec: "(n :: u32) \<noteq> 0 \<Longrightarrow> unat (n - 1) = unat n - 1"
  by (simp add: unat_minus_one)

lemma list_all_less_Suc:
  "list_all (\<lambda>(a, d). a < (b :: addr)) ns \<Longrightarrow> list_all (\<lambda>(a, d). a < Suc b) ns"
  by (induction ns) auto

lemma fresh_notin: "list_all (\<lambda>(a, d). a < (b :: addr)) ns \<Longrightarrow> b \<notin> fst ` set ns"
  by (induction ns) auto

lemma list_add_last_inv:
  assumes inv: "dlist_inv s ns" and q: "quota s \<noteq> 0" and len: "Suc (length ns) < 2 ^ 32"
  shows "\<exists>s'. list_add_last s d = Some (SUCCESS, s') \<and> dlist_inv s' (ns @ [(brk s, d)])
            \<and> quota s' = quota s - 1 \<and> brk s' = Suc (brk s) \<and> cfg s' = cfg s"
proof -
  from inv obtain l where l: "list s = Some l"
    and sg: "seg (heap s) None (first l) ns (last' l) None"
    and dist: "distinct (map fst ns)"
    and bound: "list_all (\<lambda>(a, d). a < brk s) ns"
    and cnt: "unat (nb_elements l) = length ns"
    by (auto simp: dlist_inv_def split: option.splits)
  have fresh: "brk s \<notin> fst ` set ns" by (rule fresh_notin [OF bound])
  have cnt': "unat (nb_elements l + 1) = Suc (length ns)"
    using unat_inc [of "nb_elements l"] cnt len by simp
  show ?thesis
  proof (cases ns rule: rev_cases)
    case Nil
    with sg have "first l = None" "last' l = None" by auto
    then show ?thesis
      using l q cnt' Nil
      by (simp add: list_add_last_def create_element_def update_links_def update_desc_def
          dlist_inv_def cfg_def Let_def)
  next
    case (snoc ms m)
    obtain a da where m: "m = (a, da)" by (cases m)
    from sg obtain pm x where
      pre: "seg (heap s) None (first l) ms pm (Some a)"
      and x: "heap s a = Some x" "prev x = pm" "data x = da" "next' x = None"
      and la: "last' l = Some a"
      by (auto simp: snoc m seg_append split: option.splits)
    have ne: "a \<noteq> brk s" using fresh by (auto simp: snoc m)
    have a_notin: "a \<notin> fst ` set ms" using dist by (auto simp: snoc m)
    have b_notin: "brk s \<notin> fst ` set ms" using fresh by (auto simp: snoc m)
    have fl: "first l \<noteq> None" using pre by (cases ms) auto
    let ?h = "(heap s)(brk s \<mapsto> \<lparr>data = d, prev = Some a, next' = None\<rparr>,
                       a \<mapsto> x\<lparr>next' := Some (brk s)\<rparr>)"
    have pre': "seg ?h None (first l) ms pm (Some a)"
      using pre a_notin b_notin by (simp add: seg_frame)
    have res: "list_add_last s d =
      Some (SUCCESS, s\<lparr>heap := ?h, brk := Suc (brk s), quota := quota s - 1,
                       list := Some (l\<lparr>last' := Some (brk s), nb_elements := nb_elements l + 1\<rparr>)\<rparr>)"
      using l q la x ne fl
      by (auto simp: list_add_last_def create_element_def update_links_def update_desc_def
          Let_def fun_upd_twist)
    show ?thesis
      unfolding res
      using pre' x ne dist bound fresh cnt' l
      by (auto simp: dlist_inv_def cfg_def snoc m seg_append list_all_less_Suc
          intro!: exI [of _ pm] exI [of _ "Some a"])
  qed
qed


lemma list_add_first_inv:
  assumes inv: "dlist_inv s ns" and q: "quota s \<noteq> 0" and len: "Suc (length ns) < 2 ^ 32"
  shows "\<exists>s'. list_add_first s d = Some (SUCCESS, s') \<and> dlist_inv s' ((brk s, d) # ns)
            \<and> quota s' = quota s - 1 \<and> brk s' = Suc (brk s) \<and> cfg s' = cfg s"
proof -
  from inv obtain l where l: "list s = Some l"
    and sg: "seg (heap s) None (first l) ns (last' l) None"
    and dist: "distinct (map fst ns)"
    and bound: "list_all (\<lambda>(a, d). a < brk s) ns"
    and cnt: "unat (nb_elements l) = length ns"
    by (auto simp: dlist_inv_def split: option.splits)
  have fresh: "brk s \<notin> fst ` set ns" by (rule fresh_notin [OF bound])
  have cnt': "unat (nb_elements l + 1) = Suc (length ns)"
    using unat_inc [of "nb_elements l"] cnt len by simp
  show ?thesis
  proof (cases ns)
    case Nil
    with sg have "first l = None" "last' l = None" by auto
    then show ?thesis
      using l q cnt' Nil
      by (simp add: list_add_first_def create_element_def update_links_def update_desc_def
          dlist_inv_def cfg_def Let_def)
  next
    case (Cons m ms)
    obtain a da where m: "m = (a, da)" by (cases m)
    from sg obtain x where
      fa: "first l = Some a"
      and x: "heap s a = Some x" "prev x = None" "data x = da"
      and post: "seg (heap s) (Some a) (next' x) ms (last' l) None"
      by (auto simp: Cons m split: option.splits)
    have ne: "a \<noteq> brk s" using fresh by (auto simp: Cons m)
    have a_notin: "a \<notin> fst ` set ms" using dist by (auto simp: Cons m)
    have b_notin: "brk s \<notin> fst ` set ms" using fresh by (auto simp: Cons m)
    have ll: "last' l \<noteq> None" using seg_last [OF sg] by (simp add: Cons)
    let ?h = "(heap s)(brk s \<mapsto> \<lparr>data = d, prev = None, next' = Some a\<rparr>,
                       a \<mapsto> x\<lparr>prev := Some (brk s)\<rparr>)"
    have post': "seg ?h (Some a) (next' x) ms (last' l) None"
      using post a_notin b_notin by (simp add: seg_frame)
    have res: "list_add_first s d =
      Some (SUCCESS, s\<lparr>heap := ?h, brk := Suc (brk s), quota := quota s - 1,
                       list := Some (l\<lparr>first := Some (brk s), nb_elements := nb_elements l + 1\<rparr>)\<rparr>)"
      using l q fa x ne ll
      by (auto simp: list_add_first_def create_element_def update_links_def update_desc_def
          Let_def fun_upd_twist)
    show ?thesis
      unfolding res
      using post' x ne dist bound fresh cnt' l
      by (auto simp: dlist_inv_def cfg_def Cons m list_all_less_Suc)
  qed
qed


lemma list_get_first_empty:
  assumes inv: "dlist_inv s []"
  shows "list_get_first s = Some (0, FAILURE, s)"
proof -
  from inv obtain l where "list s = Some l" "unat (nb_elements l) = 0"
    by (auto simp: dlist_inv_def split: option.splits)
  then show ?thesis by (simp add: list_get_first_def unat_eq_0)
qed

lemma list_get_first_inv:
  assumes inv: "dlist_inv s ((a, d) # ms)"
  shows "\<exists>s'. list_get_first s = Some (d, SUCCESS, s') \<and> dlist_inv s' ms
            \<and> quota s' = quota s \<and> brk s' = brk s \<and> cfg s' = cfg s"
proof -
  from inv obtain l x where l: "list s = Some l"
    and fa: "first l = Some a"
    and x: "heap s a = Some x" "prev x = None" "data x = d"
    and post: "seg (heap s) (Some a) (next' x) ms (last' l) None"
    and dist: "distinct (map fst ((a, d) # ms))"
    and bound: "list_all (\<lambda>(a, d). a < brk s) ((a, d) # ms)"
    and cnt: "unat (nb_elements l) = Suc (length ms)"
    by (auto simp: dlist_inv_def split: option.splits)
  have nz: "nb_elements l \<noteq> 0" using cnt by auto
  have cnt': "unat (nb_elements l - 1) = length ms"
    using unat_dec [OF nz] cnt by simp
  have a_notin: "a \<notin> fst ` set ms" using dist by auto
  show ?thesis
  proof (cases ms)
    case Nil
    with post have nx: "next' x = None" and la: "last' l = Some a" by auto
    have res: "list_get_first s =
      Some (d, SUCCESS, s\<lparr>heap := (heap s)(a := None),
               list := Some (l\<lparr>first := None, last' := None, nb_elements := nb_elements l - 1\<rparr>)\<rparr>)"
      using l fa x nx la nz
      by (simp add: list_get_first_def update_links_def update_desc_def Let_def)
    show ?thesis unfolding res using cnt' l by (simp add: dlist_inv_def cfg_def Nil)
  next
    case (Cons m2 rest)
    obtain a2 d2 where m2: "m2 = (a2, d2)" by (cases m2)
    from post obtain y where
      nx: "next' x = Some a2"
      and y: "heap s a2 = Some y" "prev y = Some a" "data y = d2"
      and post2: "seg (heap s) (Some a2) (next' y) rest (last' l) None"
      by (auto simp: Cons m2 split: option.splits)
    have ne: "a2 \<noteq> a" using dist by (auto simp: Cons m2)
    have a2_notin: "a2 \<notin> fst ` set rest" using dist by (auto simp: Cons m2)
    have a_notin2: "a \<notin> fst ` set rest" using dist by (auto simp: Cons m2)
    have ll: "last' l \<noteq> None" using seg_last [OF post] by (simp add: Cons)
    let ?h = "(heap s)(a2 \<mapsto> y\<lparr>prev := None\<rparr>, a := None)"
    have post': "seg ?h (Some a2) (next' y) rest (last' l) None"
      using post2 a2_notin a_notin2 by (simp add: seg_frame)
    have res: "list_get_first s =
      Some (d, SUCCESS, s\<lparr>heap := ?h,
               list := Some (l\<lparr>first := Some a2, nb_elements := nb_elements l - 1\<rparr>)\<rparr>)"
      using l fa x nx y ne nz ll
      by (auto simp: list_get_first_def update_links_def update_desc_def Let_def)
    show ?thesis
      unfolding res
      using post' y ne dist bound cnt' l
      by (auto simp: dlist_inv_def cfg_def Cons m2)
  qed
qed


lemma add_find_loop_seg:
  "seg h p c ns q None \<Longrightarrow>
   add_find_loop cmp h d c =
     Some (case dropWhile (\<lambda>(a, x). \<not> cmp d x <s 0) ns of [] \<Rightarrow> None | (a, x) # r \<Rightarrow> Some a)"
proof (induction ns arbitrary: p c)
  case Nil
  then show ?case by (subst add_find_loop.simps) simp
next
  case (Cons m ms)
  obtain a x where m: "m = (a, x)" by (cases m)
  from Cons.prems obtain y where c: "c = Some a" and y: "h a = Some y" "data y = x"
    and rest: "seg h (Some a) (next' y) ms q None"
    by (auto simp: m split: option.splits)
  show ?case
  proof (cases "cmp d x <s 0")
    case True
    then show ?thesis using c y by (subst add_find_loop.simps) (simp add: m)
  next
    case False
    then show ?thesis using c y Cons.IH [OF rest]
      by (subst add_find_loop.simps) (simp add: m)
  qed
qed

lemma dlist_inv_set_l_it [simp]: "dlist_inv (set_l_it e s) ns = dlist_inv s ns"
  by (simp add: dlist_inv_def set_l_it_def split: option.splits)

lemma set_l_it_fields [simp]:
  "heap (set_l_it e s) = heap s" "quota (set_l_it e s) = quota s" "brk (set_l_it e s) = brk s"
  "cfg (set_l_it e s) = cfg s"
  by (simp_all add: set_l_it_def cfg_def split: option.splits)

lemma get_l_it_set_l_it:
  "list s = Some l \<Longrightarrow> get_l_it (set_l_it e s) = Some ((l_it l)\<lparr>elem := e\<rparr>)"
  by (simp add: get_l_it_def set_l_it_def)

lemma iterator_insert_before_inv:
  assumes inv: "dlist_inv s (pre @ (a, da) # post)" and q: "quota s \<noteq> 0"
    and len: "Suc (length (pre @ (a, da) # post)) < 2 ^ 32"
    and it: "elem i = Some a"
  shows "\<exists>s'. iterator_insert (Some i) d False s = Some (SUCCESS, s')
            \<and> dlist_inv s' (pre @ (brk s, d) # (a, da) # post)
            \<and> quota s' = quota s - 1 \<and> brk s' = Suc (brk s) \<and> cfg s' = cfg s"
proof -
  let ?ns = "pre @ (a, da) # post"
  from inv obtain l where l: "list s = Some l"
    and sg: "seg (heap s) None (first l) ?ns (last' l) None"
    and dist: "distinct (map fst ?ns)"
    and bound: "list_all (\<lambda>(a, d). a < brk s) ?ns"
    and cnt: "unat (nb_elements l) = length ?ns"
    by (auto simp: dlist_inv_def split: option.splits)
  have fresh: "brk s \<notin> fst ` set ?ns" by (rule fresh_notin [OF bound])
  have cnt': "unat (nb_elements l + 1) = Suc (length ?ns)"
    using unat_inc [of "nb_elements l"] cnt len by simp
  show ?thesis
  proof (cases pre rule: rev_cases)
    case Nil
    with sg have "first l = Some a" by (auto split: option.splits)
    then have "iterator_insert (Some i) d False s = list_add_first s d"
      using l it by (simp add: iterator_insert_def)
    then show ?thesis using list_add_first_inv [OF inv q len, of d] by (simp add: Nil)
  next
    case (snoc pre0 m)
    obtain pa dpa where m: "m = (pa, dpa)" by (cases m)
    from sg obtain pm z x where
      s0: "seg (heap s) None (first l) pre0 pm (Some pa)"
      and z: "heap s pa = Some z" "prev z = pm" "data z = dpa" "next' z = Some a"
      and x: "heap s a = Some x" "prev x = Some pa" "data x = da"
      and s2: "seg (heap s) (Some a) (next' x) post (last' l) None"
      by (auto simp: snoc m seg_append split: option.splits)
    have fa: "first l \<noteq> Some a"
    proof -
      have "first l = Some (fst (hd ?ns))" using seg_first [OF sg] by simp
      moreover have "fst (hd ?ns) \<noteq> a" using dist by (cases pre0) (auto simp: snoc m)
      ultimately show ?thesis by simp
    qed
    have ne: "a \<noteq> brk s" "pa \<noteq> brk s" "pa \<noteq> a" using fresh dist by (auto simp: snoc m)
    have notin0: "a \<notin> fst ` set pre0" "pa \<notin> fst ` set pre0" "brk s \<notin> fst ` set pre0"
      using dist fresh by (auto simp: snoc m)
    have notin2: "a \<notin> fst ` set post" "pa \<notin> fst ` set post" "brk s \<notin> fst ` set post"
      using dist fresh by (auto simp: snoc m)
    let ?h = "(heap s)(brk s \<mapsto> \<lparr>data = d, prev = Some pa, next' = Some a\<rparr>,
                       pa \<mapsto> z\<lparr>next' := Some (brk s)\<rparr>,
                       a \<mapsto> x\<lparr>prev := Some (brk s)\<rparr>)"
    have s0': "seg ?h None (first l) pre0 pm (Some pa)"
      using s0 notin0 by (simp add: seg_frame)
    have s2': "seg ?h (Some a) (next' x) post (last' l) None"
      using s2 notin2 by (simp add: seg_frame)
    have res: "iterator_insert (Some i) d False s =
      Some (SUCCESS, s\<lparr>heap := ?h, brk := Suc (brk s), quota := quota s - 1,
                       list := Some (l\<lparr>nb_elements := nb_elements l + 1\<rparr>)\<rparr>)"
      using l q it fa x z ne
      by (auto simp: iterator_insert_def create_element_def update_links_def Let_def
          fun_upd_twist)
    show ?thesis
      unfolding res
      using s0' s2' x z ne dist bound fresh cnt' l
      by (auto simp: dlist_inv_def cfg_def snoc m seg_append list_all_less_Suc
          intro!: exI [of _ pm] exI [of _ "Some pa"])
  qed
qed

subsection \<open>Sorted insertion on sequences\<close>












subsection \<open>The adapter on the heap\<close>

lemma takeWhile_snd:
  "map snd (takeWhile (\<lambda>(a, x). P x) ns) = takeWhile P (map snd ns)"
  by (induction ns) auto

lemma dropWhile_snd:
  "map snd (dropWhile (\<lambda>(a, x). P x) ns) = dropWhile P (map snd ns)"
  by (induction ns) auto

lemma list_set_l_it:
  "list s = Some l \<Longrightarrow> list (set_l_it e s) = Some (l\<lparr>l_it := (l_it l)\<lparr>elem := e\<rparr>\<rparr>)"
  by (simp add: set_l_it_def)

lemma list_add_find_inv:
  assumes inv: "dlist_inv s ns" and q: "quota s \<noteq> 0" and len: "Suc (length ns) < 2 ^ 32"
    and c: "cfg s = Some (cmp, ad, k)"
  shows "\<exists>s' ns'. list_add_find s d = Some (SUCCESS, s') \<and> dlist_inv s' ns'
            \<and> map snd ns' = sorted_insert cmp d (map snd ns)
            \<and> quota s' = quota s - 1 \<and> cfg s' = cfg s"
proof -
  let ?P = "\<lambda>(a, x). \<not> cmp d x <s 0"
  from inv c obtain l where l: "list s = Some l" and cl: "comparator l = cmp"
    and sg: "seg (heap s) None (first l) ns (last' l) None"
    by (auto simp: dlist_inv_def cfg_def split: option.splits)
  have loop: "add_find_loop cmp (heap s) d (first l) =
      Some (case dropWhile ?P ns of [] \<Rightarrow> None | (a, x) # r \<Rightarrow> Some a)"
    by (rule add_find_loop_seg [OF sg])
  have si: "sorted_insert cmp d (map snd ns) =
      map snd (takeWhile ?P ns) @ d # map snd (dropWhile ?P ns)"
    using takeWhile_snd [of "\<lambda>x. \<not> cmp d x <s 0" ns]
      dropWhile_snd [of "\<lambda>x. \<not> cmp d x <s 0" ns]
    by (simp add: sorted_insert_def)
  show ?thesis
  proof (cases "dropWhile ?P ns")
    case Nil
    then have tw: "takeWhile ?P ns = ns" by (metis append_Nil2 takeWhile_dropWhile_id)
    have "list_add_find s d = list_add_last (set_l_it (last' l) s) d"
      using l cl loop Nil
      by (simp add: list_add_find_def get_l_it_set_l_it iterator_insert_def Let_def
          list_set_l_it)
    moreover obtain s' where "list_add_last (set_l_it (last' l) s) d = Some (SUCCESS, s')"
      "dlist_inv s' (ns @ [(brk s, d)])" "quota s' = quota s - 1" "cfg s' = cfg s"
      using list_add_last_inv [of "set_l_it (last' l) s" ns d] inv q len by auto
    moreover have "map snd (ns @ [(brk s, d)]) = sorted_insert cmp d (map snd ns)"
      unfolding si Nil tw by simp
    ultimately show ?thesis by metis
  next
    case (Cons m post)
    obtain a da where m: "m = (a, da)" by (cases m)
    let ?pre = "takeWhile ?P ns"
    have ns: "ns = ?pre @ (a, da) # post"
      using Cons m by (metis takeWhile_dropWhile_id)
    have "list_add_find s d =
        iterator_insert (Some ((l_it l)\<lparr>elem := Some a\<rparr>)) d False (set_l_it (Some a) s)"
      using l cl loop Cons m
      by (simp add: list_add_find_def get_l_it_set_l_it Let_def)
    moreover obtain s' where
      "iterator_insert (Some ((l_it l)\<lparr>elem := Some a\<rparr>)) d False (set_l_it (Some a) s)
         = Some (SUCCESS, s')"
      "dlist_inv s' (?pre @ (brk s, d) # (a, da) # post)" "quota s' = quota s - 1"
      "cfg s' = cfg s"
      using iterator_insert_before_inv [of "set_l_it (Some a) s" ?pre a da post
          "(l_it l)\<lparr>elem := Some a\<rparr>" d] inv q len ns
      by auto
    moreover have "map snd (?pre @ (brk s, d) # (a, da) # post) = sorted_insert cmp d (map snd ns)"
      unfolding si Cons m by simp
    ultimately show ?thesis by metis
  qed
qed











section \<open>Removal on well-formed lists\<close>

text \<open>
  \<open>iterator_get\<close> on any well-formed list, with the iterator on the node \<open>a\<close>: the node is
  unlinked and released, its payload returned and the count decremented; the iterator is
  left on the successor of \<open>a\<close>, which is null when \<open>a\<close> was the tail.
\<close>

lemma iterator_get_inv:
  assumes inv: "dlist_inv s (pre @ (a, d) # post)" and it: "elem i = Some a"
  shows "\<exists>s'. iterator_get (Some i) s =
              Some (d, SUCCESS,
                    Some (i\<lparr>elem := (case post of [] \<Rightarrow> None | (b, x) # r \<Rightarrow> Some b)\<rparr>), s')
            \<and> dlist_inv s' (pre @ post) \<and> cfg s' = cfg s"
proof -
  let ?ns = "pre @ (a, d) # post"
  from inv obtain l where l: "list s = Some l"
    and sg: "seg (heap s) None (first l) ?ns (last' l) None"
    and dist: "distinct (map fst ?ns)"
    and bound: "list_all (\<lambda>(a, d). a < brk s) ?ns"
    and cnt: "unat (nb_elements l) = length ?ns"
    by (auto simp: dlist_inv_def split: option.splits)
  have nz: "nb_elements l \<noteq> 0" using cnt by auto
  have cnt': "unat (nb_elements l - 1) = length (pre @ post)"
    using unat_dec [OF nz] cnt by simp
  from sg obtain pm x where
    s0: "seg (heap s) None (first l) pre pm (Some a)"
    and x: "heap s a = Some x" "prev x = pm" "data x = d"
    and s2: "seg (heap s) (Some a) (next' x) post (last' l) None"
    by (auto simp: seg_append split: option.splits)
  have pm: "pm = (if pre = [] then None else Some (fst (last pre)))"
    using seg_last [OF s0] by simp
  have nx: "next' x = (if post = [] then None else Some (fst (hd post)))"
    using seg_first [OF s2] by simp
  have fl: "first l = (if pre = [] then Some a else Some (fst (hd pre)))"
    using seg_first [OF s0] by simp
  have ll: "last' l = (if post = [] then Some a else Some (fst (last post)))"
    using seg_last [OF s2] by simp
  have a_pre: "a \<notin> fst ` set pre" and a_post: "a \<notin> fst ` set post" using dist by auto
  show ?thesis
  proof (cases pre rule: rev_cases)
    case Nil
    note preNil = Nil
    show ?thesis
    proof (cases post)
      case Nil
      have res: "iterator_get (Some i) s =
        Some (d, SUCCESS, Some (i\<lparr>elem := None\<rparr>),
              s\<lparr>heap := (heap s)(a := None),
                list := Some (l\<lparr>first := None, last' := None,
                                 nb_elements := nb_elements l - 1\<rparr>)\<rparr>)"
        using l it x pm nx fl ll preNil Nil
        by (simp add: iterator_get_def update_links_def update_desc_def Let_def)
      show ?thesis unfolding res using cnt' l preNil Nil
        by (simp add: dlist_inv_def cfg_def)
    next
      case (Cons m2 rest)
      obtain a2 d2 where m2: "m2 = (a2, d2)" by (cases m2)
      from s2 obtain y where
        y: "heap s a2 = Some y" "prev y = Some a" "data y = d2"
        and s3: "seg (heap s) (Some a2) (next' y) rest (last' l) None"
        by (auto simp: Cons m2 split: option.splits)
      have ne: "a2 \<noteq> a" using dist by (auto simp: Cons m2)
      have notin: "a2 \<notin> fst ` set rest" "a \<notin> fst ` set rest"
        using dist by (auto simp: Cons m2)
      have lne: "last' l \<noteq> Some a" using ll dist by (auto simp: Cons m2)
      let ?h = "(heap s)(a2 \<mapsto> y\<lparr>prev := None\<rparr>, a := None)"
      have s3': "seg ?h (Some a2) (next' y) rest (last' l) None"
        using s3 notin by (simp add: seg_frame)
      have res: "iterator_get (Some i) s =
        Some (d, SUCCESS, Some (i\<lparr>elem := Some a2\<rparr>),
              s\<lparr>heap := ?h,
                list := Some (l\<lparr>first := Some a2, nb_elements := nb_elements l - 1\<rparr>)\<rparr>)"
        using l it x y pm nx fl ll lne ne preNil Cons m2
        by (auto simp: iterator_get_def update_links_def update_desc_def Let_def)
      show ?thesis unfolding res using s3' y ne dist bound cnt' l preNil Cons m2
        by (auto simp: dlist_inv_def cfg_def)
    qed
  next
    case (snoc pre0 m)
    note preSnoc = snoc
    obtain pa dpa where m: "m = (pa, dpa)" by (cases m)
    from s0 obtain pp z where
      s00: "seg (heap s) None (first l) pre0 pp (Some pa)"
      and z: "heap s pa = Some z" "prev z = pp" "data z = dpa" "next' z = Some a"
      by (auto simp: snoc m seg_append split: option.splits)
    have pme: "pm = Some pa" using pm by (simp add: snoc m)
    have ne: "pa \<noteq> a" using dist by (auto simp: snoc m)
    have fne: "first l \<noteq> Some a"
      using fl dist by (cases pre0) (auto simp: snoc m)
    have notin0: "a \<notin> fst ` set pre0" "pa \<notin> fst ` set pre0"
      using dist by (auto simp: snoc m)
    have fnn: "first l \<noteq> None" using fl by (simp add: snoc)
    show ?thesis
    proof (cases post)
      case Nil
      let ?h = "(heap s)(pa \<mapsto> z\<lparr>next' := None\<rparr>, a := None)"
      have s00': "seg ?h None (first l) pre0 pp (Some pa)"
        using s00 notin0 by (simp add: seg_frame)
      have res: "iterator_get (Some i) s =
        Some (d, SUCCESS, Some (i\<lparr>elem := None\<rparr>),
              s\<lparr>heap := ?h,
                list := Some (l\<lparr>last' := Some pa, nb_elements := nb_elements l - 1\<rparr>)\<rparr>)"
        using l it x z pme nx fl ll fne fnn ne preSnoc Nil m
        by (auto simp: iterator_get_def update_links_def update_desc_def Let_def)
      show ?thesis unfolding res using s00' z ne dist bound cnt' l preSnoc Nil m
        by (auto simp: dlist_inv_def cfg_def seg_append
            intro!: exI [of _ pp] exI [of _ "Some pa"])
    next
      case (Cons m2 rest)
      obtain a2 d2 where m2: "m2 = (a2, d2)" by (cases m2)
      from s2 obtain y where
        y: "heap s a2 = Some y" "prev y = Some a" "data y = d2"
        and s3: "seg (heap s) (Some a2) (next' y) rest (last' l) None"
        by (auto simp: Cons m2 split: option.splits)
      have ne2: "a2 \<noteq> a" "a2 \<noteq> pa" using dist by (auto simp: Cons m2 snoc m)
      have notin: "a2 \<notin> fst ` set rest" "a \<notin> fst ` set rest" "pa \<notin> fst ` set rest"
        "a2 \<notin> fst ` set pre0"
        using dist by (auto simp: Cons m2 snoc m)
      have lne: "last' l \<noteq> Some a" using ll dist by (auto simp: Cons m2)
      let ?h = "(heap s)(pa \<mapsto> z\<lparr>next' := Some a2\<rparr>, a2 \<mapsto> y\<lparr>prev := Some pa\<rparr>, a := None)"
      have s00': "seg ?h None (first l) pre0 pp (Some pa)"
        using s00 notin0 notin by (simp add: seg_frame)
      have s3': "seg ?h (Some a2) (next' y) rest (last' l) None"
        using s3 notin by (simp add: seg_frame)
      have res: "iterator_get (Some i) s =
        Some (d, SUCCESS, Some (i\<lparr>elem := Some a2\<rparr>),
              s\<lparr>heap := ?h,
                list := Some (l\<lparr>nb_elements := nb_elements l - 1\<rparr>)\<rparr>)"
        using l it x y z pme nx fl ll lne fne ne ne2 preSnoc Cons m2 m
        by (auto simp: iterator_get_def update_links_def update_desc_def Let_def)
      show ?thesis unfolding res using s00' s3' y z ne ne2 dist bound cnt' l preSnoc Cons m2 m
        by (auto simp: dlist_inv_def cfg_def seg_append
            intro!: exI [of _ pp] exI [of _ "Some pa"])
    qed
  qed
qed

text \<open>
  \<open>list_remove\<close> on any well-formed list without live iterators: the loop releases the
  nodes up to and including the first one with a null payload; when no payload is null,
  every node of the list is released.
\<close>

lemma update_links_dom: "update_links p e n h = Some h' \<Longrightarrow> dom h' = dom h"
  by (auto simp: update_links_def split: option.splits bind_splits if_splits)

lemma list_get_first_dom:
  assumes "dlist_inv s ((a, d) # ms)" and "list_get_first s = Some (d', r, s')"
  shows "dom (heap s') = dom (heap s) - {a}"
proof -
  from assms(1) obtain l where l: "list s = Some l" "first l = Some a"
    and cnt: "unat (nb_elements l) = Suc (length ms)"
    by (auto simp: dlist_inv_def split: option.splits)
  from cnt have nz: "nb_elements l \<noteq> 0" by auto
  from assms(2) l nz obtain x h where "heap s a = Some x"
    "update_links (prev x) None (next' x) (heap s) = Some h" "heap s' = h(a := None)"
    by (auto simp: list_get_first_def Let_def split: bind_splits)
  then show ?thesis using update_links_dom [of "prev x" None "next' x" "heap s" h] by auto
qed

lemma remove_loop_inv:
  "dlist_inv s ns \<Longrightarrow>
   \<exists>s'. remove_loop s = Some s'
     \<and> dlist_inv s' (drop 1 (dropWhile (\<lambda>(a, d). d \<noteq> 0) ns))
     \<and> dom (heap s') = dom (heap s)
          - (fst ` set ns - fst ` set (drop 1 (dropWhile (\<lambda>(a, d). d \<noteq> 0) ns)))
     \<and> cfg s' = cfg s"
proof (induction ns arbitrary: s)
  case Nil
  show ?case using list_get_first_empty [OF Nil] Nil
    by (subst remove_loop.simps) simp
next
  case (Cons m ms)
  obtain a d where m: "m = (a, d)" by (cases m)
  from list_get_first_inv [of s a d ms] Cons.prems
  obtain s1 where g: "list_get_first s = Some (d, SUCCESS, s1)" and i1: "dlist_inv s1 ms"
    and c1: "cfg s1 = cfg s"
    by (auto simp: m)
  have d1: "dom (heap s1) = dom (heap s) - {a}"
    using list_get_first_dom [of s a d ms d SUCCESS s1] Cons.prems g by (simp add: m)
  have dist: "a \<notin> fst ` set ms" using Cons.prems by (auto simp: dlist_inv_def m split: option.splits)
  show ?case
  proof (cases "d = 0")
    case True
    then show ?thesis using g i1 c1 d1 dist
      by (subst remove_loop.simps) (auto simp: m)
  next
    case False
    from Cons.IH [OF i1] obtain s' where r: "remove_loop s1 = Some s'"
      and i': "dlist_inv s' (drop 1 (dropWhile (\<lambda>(a, d). d \<noteq> 0) ms))"
      and d': "dom (heap s') = dom (heap s1)
          - (fst ` set ms - fst ` set (drop 1 (dropWhile (\<lambda>(a, d). d \<noteq> 0) ms)))"
      and c': "cfg s' = cfg s1"
      by blast
    have sub: "fst ` set (drop 1 (dropWhile (\<lambda>(a, d). d \<noteq> 0) ms)) \<subseteq> fst ` set ms"
      by (meson image_mono set_drop_subset set_dropWhileD subsetI subset_trans)
    have "remove_loop s = Some s'" using g r False by (subst remove_loop.simps) simp
    moreover have "dom (heap s') = dom (heap s)
          - (fst ` set (m # ms) - fst ` set (drop 1 (dropWhile (\<lambda>(a, d). d \<noteq> 0) (m # ms))))"
      using d' d1 dist sub False by (auto simp: m)
    ultimately show ?thesis using i' c' c1 False by (simp add: m)
  qed
qed

lemma list_remove_drains:
  assumes inv: "dlist_inv s ns" and it: "map_option nb_iterators (list s) = Some 0"
    and nz: "list_all (\<lambda>(a, d). d \<noteq> 0) ns"
  shows "\<exists>s'. list_remove s = Some (SUCCESS, s') \<and> list s' = None
            \<and> dom (heap s') = dom (heap s) - fst ` set ns"
proof -
  have dw: "dropWhile (\<lambda>(a, d). d \<noteq> 0) ns = []"
    using nz by (induction ns) auto
  from remove_loop_inv [OF inv] obtain s1 where "remove_loop s = Some s1"
    "dom (heap s1) = dom (heap s) - fst ` set ns"
    by (auto simp: dw)
  then show ?thesis using it by (auto simp: list_remove_def)
qed

section \<open>Operations under the default comparator\<close>

lemma default_comparator_match: "default_comparator d key = 0 \<longleftrightarrow> ref_match key d"
  by (simp add: default_comparator_eq_0 ref_match_def)

lemma sint_default_comparator:
  "sint (default_comparator d x) = signed_take_bit 31 (uint d - uint x)"
proof -
  have "sint (default_comparator d x) = signed_take_bit 31 (uint (default_comparator d x))"
    by (simp add: sint_uint)
  also have "\<dots> = signed_take_bit 31 (take_bit 32 (uint d - uint x))"
    by (simp add: uint_default_comparator take_bit_eq_mod)
  also have "\<dots> = signed_take_bit 31 (uint d - uint x)"
    by (simp add: signed_take_bit_take_bit)
  finally show ?thesis .
qed

lemma default_comparator_less: "default_comparator d x <s 0 \<longleftrightarrow> ref_less d x"
  by (simp add: word_sless_alt sint_default_comparator ref_less_def)

lemma find_loop_seg:
  "seg h p c ns q None \<Longrightarrow>
   find_loop cmp h key c =
     Some (case dropWhile (\<lambda>(a, x). cmp x key \<noteq> 0) ns of [] \<Rightarrow> None | (a, x) # r \<Rightarrow> Some a)"
proof (induction ns arbitrary: p c)
  case Nil
  then show ?case by (subst find_loop.simps) simp
next
  case (Cons m ms)
  obtain a x where m: "m = (a, x)" by (cases m)
  from Cons.prems obtain y where c: "c = Some a" and y: "h a = Some y" "data y = x"
    and rest: "seg h (Some a) (next' y) ms q None"
    by (auto simp: m split: option.splits)
  show ?case
  proof (cases "cmp x key = 0")
    case True
    then show ?thesis using c y by (subst find_loop.simps) (simp add: m)
  next
    case False
    then show ?thesis using c y Cons.IH [OF rest]
      by (subst find_loop.simps) (simp add: m)
  qed
qed

lemma iterator_find_inv:
  assumes inv: "dlist_inv s ns" and c: "map_option comparator (list s) = Some cmp"
  shows "iterator_find (Some i) key s =
     (case dropWhile (\<lambda>(a, x). cmp x key \<noteq> 0) ns of
        [] \<Rightarrow> Some (FAILURE, Some i)
      | (a, x) # r \<Rightarrow> Some (SUCCESS, Some (i\<lparr>elem := Some a\<rparr>)))"
proof -
  from inv c obtain l where l: "list s = Some l" and cl: "comparator l = cmp"
    and sg: "seg (heap s) None (first l) ns (last' l) None"
    by (auto simp: dlist_inv_def split: option.splits)
  have fl: "find_loop cmp (heap s) key (first l) =
      Some (case dropWhile (\<lambda>(a, x). cmp x key \<noteq> 0) ns of [] \<Rightarrow> None | (a, x) # r \<Rightarrow> Some a)"
    by (rule find_loop_seg [OF sg])
  show ?thesis
  proof (cases "dropWhile (\<lambda>(a, x). cmp x key \<noteq> 0) ns")
    case Nil
    have "find_loop cmp (heap s) key (first l) = Some None" unfolding fl Nil by simp
    then have "iterator_find (Some i) key s = Some (FAILURE, Some i)"
      using l cl by (simp add: iterator_find_def)
    then show ?thesis unfolding Nil by simp
  next
    case (Cons m r)
    obtain a x where m: "m = (a, x)" by (cases m)
    have "find_loop cmp (heap s) key (first l) = Some (Some a)" unfolding fl Cons m by simp
    then have "iterator_find (Some i) key s = Some (SUCCESS, Some (i\<lparr>elem := Some a\<rparr>))"
      using l cl by (simp add: iterator_find_def)
    then show ?thesis unfolding Cons m by simp
  qed
qed

lemma iterator_edit_inv:
  assumes inv: "dlist_inv s (pre @ (a, d) # post)" and it: "elem i = Some a"
  shows "\<exists>s'. iterator_edit (Some i) new s = Some (SUCCESS, s')
            \<and> dlist_inv s' (pre @ (a, new) # post) \<and> cfg s' = cfg s
            \<and> map_option comparator (list s') = map_option comparator (list s)"
proof -
  let ?ns = "pre @ (a, d) # post"
  from inv obtain l where l: "list s = Some l"
    and sg: "seg (heap s) None (first l) ?ns (last' l) None"
    and dist: "distinct (map fst ?ns)"
    and bound: "list_all (\<lambda>(a, d). a < brk s) ?ns"
    and cnt: "unat (nb_elements l) = length ?ns"
    by (auto simp: dlist_inv_def split: option.splits)
  from sg obtain pm x where
    s0: "seg (heap s) None (first l) pre pm (Some a)"
    and x: "heap s a = Some x" "prev x = pm" "data x = d"
    and s2: "seg (heap s) (Some a) (next' x) post (last' l) None"
    by (auto simp: seg_append split: option.splits)
  have a_pre: "a \<notin> fst ` set pre" and a_post: "a \<notin> fst ` set post" using dist by auto
  let ?h = "(heap s)(a \<mapsto> x\<lparr>data := new\<rparr>)"
  have s0': "seg ?h None (first l) pre pm (Some a)" using s0 a_pre by (simp add: seg_frame)
  have s2': "seg ?h (Some a) (next' x) post (last' l) None" using s2 a_post by (simp add: seg_frame)
  have res: "iterator_edit (Some i) new s = Some (SUCCESS, s\<lparr>heap := ?h\<rparr>)"
    using it x by (simp add: iterator_edit_def)
  show ?thesis unfolding res using s0' s2' x dist bound cnt l
    by (auto simp: dlist_inv_def cfg_def seg_append intro!: exI [of _ pm] exI [of _ "Some a"])
qed

lemma iterator_read_inv:
  assumes inv: "dlist_inv s (pre @ (a, d) # post)" and it: "elem i = Some a"
  shows "iterator_read (Some i) s = Some (d, SUCCESS)"
proof -
  from inv obtain l where "list s = Some l"
    "seg (heap s) None (first l) (pre @ (a, d) # post) (last' l) None"
    by (auto simp: dlist_inv_def split: option.splits)
  then obtain x where "heap s a = Some x" "data x = d"
    by (auto simp: seg_append split: option.splits)
  then show ?thesis using it by (simp add: iterator_read_def)
qed

lemma put_l_it_Some [simp]: "put_l_it (Some i) s = set_l_it (elem i) s"
  by (simp add: put_l_it_def)

lemma comparator_set_l_it [simp]:
  "map_option comparator (list (set_l_it e s)) = map_option comparator (list s)"
  by (simp add: set_l_it_def split: option.splits)


lemma dlist_inv_put_l_it [simp]: "dlist_inv (put_l_it it s) ns = dlist_inv s ns"
  by (cases it) (simp_all add: put_l_it_def)

lemma list_find_ops:
  assumes inv: "dlist_inv s ns" and c: "map_option comparator (list s) = Some cmp"
  shows "case dropWhile (\<lambda>(a, x). cmp x key \<noteq> 0) ns of
      [] \<Rightarrow>
        (\<exists>s'. list_read_find s key = Some (0, FAILURE, s') \<and> dlist_inv s' ns)
        \<and> (\<exists>s'. list_edit_find s new key = Some (FAILURE, s') \<and> dlist_inv s' ns)
        \<and> (\<exists>s'. list_get_find s key = Some (0, FAILURE, s') \<and> dlist_inv s' ns)
    | (a, d) # post \<Rightarrow>
        (\<exists>s'. list_read_find s key = Some (d, SUCCESS, s') \<and> dlist_inv s' ns)
        \<and> (\<exists>s'. list_edit_find s new key = Some (SUCCESS, s')
               \<and> dlist_inv s' (takeWhile (\<lambda>(a, x). cmp x key \<noteq> 0) ns @ (a, new) # post))
        \<and> (\<exists>s'. list_get_find s key = Some (d, SUCCESS, s')
               \<and> dlist_inv s' (takeWhile (\<lambda>(a, x). cmp x key \<noteq> 0) ns @ post))"
proof -
  let ?M = "\<lambda>(a, x). cmp x key \<noteq> 0"
  from inv obtain l where l: "list s = Some l"
    by (auto simp: dlist_inv_def split: option.splits)
  let ?s0 = "set_l_it (first l) s"
  let ?i0 = "(l_it l)\<lparr>elem := first l\<rparr>"
  have g: "get_l_it ?s0 = Some ?i0" by (rule get_l_it_set_l_it [OF l])
  have inv0: "dlist_inv ?s0 ns" using inv by simp
  have c0: "map_option comparator (list ?s0) = Some cmp" using c by simp
  note f = iterator_find_inv [OF inv0 c0, of ?i0 key]
  show ?thesis
  proof (cases "dropWhile ?M ns")
    case Nil
    have fi: "iterator_find (Some ?i0) key ?s0 = Some (FAILURE, Some ?i0)"
      using f unfolding Nil by simp
    have "list_read_find s key = Some (0, FAILURE, ?s0)"
      "list_edit_find s new key = Some (FAILURE, ?s0)"
      "list_get_find s key = Some (0, FAILURE, ?s0)"
      using l g fi by (simp_all add: list_read_find_def list_edit_find_def list_get_find_def Let_def)
    then show ?thesis unfolding Nil using inv0 by simp
  next
    case (Cons m post)
    obtain a d where m: "m = (a, d)" by (cases m)
    let ?pre = "takeWhile ?M ns"
    let ?i1 = "?i0\<lparr>elem := Some a\<rparr>"
    let ?s1 = "set_l_it (Some a) ?s0"
    have ns: "ns = ?pre @ (a, d) # post" using Cons m by (metis takeWhile_dropWhile_id)
    have fi: "iterator_find (Some ?i0) key ?s0 = Some (SUCCESS, Some ?i1)"
      using f unfolding Cons m by simp
    have inv1: "dlist_inv ?s1 (?pre @ (a, d) # post)" using inv ns by simp
    have e1: "elem ?i1 = Some a" by simp
    have rd: "iterator_read (Some ?i1) ?s1 = Some (d, SUCCESS)"
      by (rule iterator_read_inv [OF inv1 e1])
    from iterator_edit_inv [OF inv1 e1, of new]
    obtain se where ed: "iterator_edit (Some ?i1) new ?s1 = Some (SUCCESS, se)"
      and ie: "dlist_inv se (?pre @ (a, new) # post)" by blast
    from iterator_get_inv [OF inv1 e1]
    obtain sg it1 where gt: "iterator_get (Some ?i1) ?s1 = Some (d, SUCCESS, it1, sg)"
      and ig: "dlist_inv sg (?pre @ post)" by blast
    have "list_read_find s key = Some (d, SUCCESS, ?s1)"
      using l g fi rd by (simp add: list_read_find_def Let_def)
    moreover have "list_edit_find s new key = Some (SUCCESS, se)"
      using l g fi ed by (simp add: list_edit_find_def Let_def)
    moreover have "list_get_find s key = Some (d, SUCCESS, put_l_it it1 sg)"
      using l g fi gt by (simp add: list_get_find_def Let_def)
    ultimately show ?thesis unfolding Cons m using inv ie ig by simp
  qed
qed



lemma dlist_inv_ls_ab: "dlist_inv ls_ab [(0, 10), (1, 20)]"
  by (simp add: dlist_inv_def list_defs)

text \<open>
  C10. \<open>list_init\<close> with a null comparator installs \<open>default_comparator\<close>, the difference
  of the two references truncated to 32 bits, which is 0 exactly for references that
  differ by a multiple of \<open>2^32\<close> (as the distinct references \<open>0x100000000\<close> and \<open>0\<close> do).
  On every well-formed list that carries this comparator the comparator-based operations
  go by the reference values alone: \<open>iterator_find\<close>, \<open>list_read_find\<close>, \<open>list_edit_find\<close> and
  \<open>list_get_find\<close> act on the first node whose reference matches the key modulo \<open>2^32\<close>
  (and fail, leaving the list as it is, when there is none), and \<open>list_add_find\<close> inserts
  before the first node whose reference the new one is below.
\<close>

theorem null_comparator_orders_by_reference:
  assumes init: "list_init True None ty s0 = (SUCCESS, s1)"
    and same: "map_option comparator (list s) = map_option comparator (list s1)"
    and inv: "dlist_inv s ns"
  shows "map_option comparator (list s) = Some default_comparator
     \<and> (\<forall>a b. uint (default_comparator a b) = (uint a - uint b) mod 2 ^ 32)
     \<and> (\<forall>a b. default_comparator a b = 0 \<longleftrightarrow> (uint a - uint b) mod 2 ^ 32 = 0)
     \<and> default_comparator 0x100000000 0 = 0 \<and> (0x100000000 :: ptr) \<noteq> 0
     \<and> iterator_find (Some i) key s =
          (case dropWhile (\<lambda>(a, x). \<not> ref_match key x) ns of
             [] \<Rightarrow> Some (FAILURE, Some i)
           | (a, x) # r \<Rightarrow> Some (SUCCESS, Some (i\<lparr>elem := Some a\<rparr>)))
     \<and> (case dropWhile (\<lambda>(a, x). \<not> ref_match key x) ns of
           [] \<Rightarrow>
             (\<exists>s'. list_read_find s key = Some (0, FAILURE, s') \<and> dlist_inv s' ns)
             \<and> (\<exists>s'. list_edit_find s new key = Some (FAILURE, s') \<and> dlist_inv s' ns)
             \<and> (\<exists>s'. list_get_find s key = Some (0, FAILURE, s') \<and> dlist_inv s' ns)
         | (a, x) # post \<Rightarrow>
             (\<exists>s'. list_read_find s key = Some (x, SUCCESS, s') \<and> dlist_inv s' ns)
             \<and> (\<exists>s'. list_edit_find s new key = Some (SUCCESS, s')
                    \<and> dlist_inv s'
                         (takeWhile (\<lambda>(a, x). \<not> ref_match key x) ns @ (a, new) # post))
             \<and> (\<exists>s'. list_get_find s key = Some (x, SUCCESS, s')
                    \<and> dlist_inv s' (takeWhile (\<lambda>(a, x). \<not> ref_match key x) ns @ post)))
     \<and> (quota s \<noteq> 0 \<and> Suc (length ns) < 2 ^ 32 \<longrightarrow>
          (\<exists>s' ns'. list_add_find s d = Some (SUCCESS, s') \<and> dlist_inv s' ns'
             \<and> map snd ns' = takeWhile (\<lambda>x. \<not> ref_less d x) (map snd ns)
                               @ d # dropWhile (\<lambda>x. \<not> ref_less d x) (map snd ns)))"
proof -
  from init have "map_option comparator (list s1) = Some default_comparator"
    by (auto simp: list_init_def split: if_splits)
  with same have c: "map_option comparator (list s) = Some default_comparator" by simp
  have m: "(\<lambda>(a, x). default_comparator x key \<noteq> 0) = (\<lambda>(a :: addr, x). \<not> ref_match key x)"
    by (simp add: default_comparator_match)
  have lt: "(\<lambda>x. \<not> default_comparator d x <s 0) = (\<lambda>x. \<not> ref_less d x)"
    by (simp add: default_comparator_less)
  have find: "iterator_find (Some i) key s =
          (case dropWhile (\<lambda>(a, x). \<not> ref_match key x) ns of
             [] \<Rightarrow> Some (FAILURE, Some i)
           | (a, x) # r \<Rightarrow> Some (SUCCESS, Some (i\<lparr>elem := Some a\<rparr>)))"
    using iterator_find_inv [OF inv c, of i key] unfolding m .
  note ops = list_find_ops [OF inv c, of key new, unfolded m]
  have add: "quota s \<noteq> 0 \<and> Suc (length ns) < 2 ^ 32 \<longrightarrow>
          (\<exists>s' ns'. list_add_find s d = Some (SUCCESS, s') \<and> dlist_inv s' ns'
             \<and> map snd ns' = takeWhile (\<lambda>x. \<not> ref_less d x) (map snd ns)
                               @ d # dropWhile (\<lambda>x. \<not> ref_less d x) (map snd ns))"
  proof
    assume a: "quota s \<noteq> 0 \<and> Suc (length ns) < 2 ^ 32"
    from c obtain l where "list s = Some l" "comparator l = default_comparator" by auto
    then have cf: "cfg s = Some (default_comparator, adapter l, nb_iterators l)"
      by (simp add: cfg_def)
    from list_add_find_inv [OF inv _ _ cf, of d] a
    obtain s' ns' where "list_add_find s d = Some (SUCCESS, s')" "dlist_inv s' ns'"
      "map snd ns' = sorted_insert default_comparator d (map snd ns)" by blast
    then show "\<exists>s' ns'. list_add_find s d = Some (SUCCESS, s') \<and> dlist_inv s' ns'
             \<and> map snd ns' = takeWhile (\<lambda>x. \<not> ref_less d x) (map snd ns)
                               @ d # dropWhile (\<lambda>x. \<not> ref_less d x) (map snd ns)"
      unfolding sorted_insert_def lt by blast
  qed
  have z: "default_comparator 0x100000000 0 = 0" by (simp add: default_comparator_def)
  show ?thesis
    using c find ops add z
    by (simp add: uint_default_comparator default_comparator_eq_0)
qed


theorem null_comparator_orders_by_reference_witness:
  "iterator_find (Some \<lparr>elem = None\<rparr>) 0x100000014 ls_ab = Some (SUCCESS, Some \<lparr>elem = Some 1\<rparr>)
   \<and> (\<exists>s'. list_edit_find ls_ab 7 0x100000014 = Some (SUCCESS, s')
          \<and> dlist_inv s' [(0, 10), (1, 7)])
   \<and> (\<exists>s'. list_get_find ls_ab 0x100000014 = Some (20, SUCCESS, s') \<and> dlist_inv s' [(0, 10)])
   \<and> (\<exists>s' ns'. list_add_find ls_ab 0x10000000F = Some (SUCCESS, s') \<and> dlist_inv s' ns'
          \<and> map snd ns' = [10, 0x10000000F, 20])"
proof -
  have same: "map_option comparator (list ls_ab) = map_option comparator (list ls_empty)"
    by (simp add: list_defs)
  have q: "quota ls_ab \<noteq> 0 \<and> Suc (length [(0 :: addr, 10 :: ptr), (1, 20)]) < 2 ^ 32"
    by (simp add: list_defs)
  have m: "\<not> ref_match 0x100000014 10" "ref_match 0x100000014 20"
    by (simp_all add: ref_match_def)
  have lt: "\<not> ref_less 0x10000000F 10" "ref_less 0x10000000F 20"
    by (simp_all add: ref_less_def)
  show ?thesis
    using null_comparator_orders_by_reference [OF list_init_mem0 same dlist_inv_ls_ab,
        of "\<lparr>elem = None\<rparr>" "0x100000014" 7 "0x10000000F"] q
    by (simp add: m lt)
qed

end
